theory Spec2Isabelle
  imports Main
begin

section \<open>JavaScript values\<close>

text \<open>
  The query builder of \<^verbatim>\<open>lib/querybuilder/querybuilder.js\<close> is dynamically typed: every
  argument of its methods is an arbitrary JavaScript value. The values are modelled as
  plain data (no functions, no objects with methods of their own). A finite number is
  kept as the decimal \<open>m * 10 ^ e\<close> that JavaScript prints for it, so that the conversion
  of a number to a string is exact; no arithmetic is ever done on a number by the builder.
  Strings are lists of 8-bit characters.
\<close>

datatype jsnum = NaN | Infinity bool | Fin int int

datatype jsval =
    JNull
  | JUndefined
  | JBool bool
  | JNum jsnum
  | JStr string
  | JArr "jsval list"
  | JObj "(string \<times> jsval) list"

datatype error = QueryError string | Error string | TypeError

text \<open>\<^verbatim>\<open>v == null\<close> holds of \<^verbatim>\<open>null\<close> and \<^verbatim>\<open>undefined\<close> only.\<close>

fun is_nullish :: "jsval \<Rightarrow> bool" where
  "is_nullish JNull = True"
| "is_nullish JUndefined = True"
| "is_nullish _ = False"

text \<open>The condition of \<^verbatim>\<open>if (v)\<close>.\<close>

fun truthy :: "jsval \<Rightarrow> bool" where
  "truthy JNull = False"
| "truthy JUndefined = False"
| "truthy (JBool b) = b"
| "truthy (JNum NaN) = False"
| "truthy (JNum (Infinity _)) = True"
| "truthy (JNum (Fin m e)) = (m \<noteq> 0)"
| "truthy (JStr s) = (s \<noteq> [])"
| "truthy (JArr _) = True"
| "truthy (JObj _) = True"

text \<open>\<^verbatim>\<open>Array.prototype.join\<close> on strings.\<close>

fun join :: "string \<Rightarrow> string list \<Rightarrow> string" where
  "join sep [] = []"
| "join sep [x] = x"
| "join sep (x # y # zs) = x @ sep @ join sep (y # zs)"

subsection \<open>Numbers to strings\<close>

definition digit_char :: "nat \<Rightarrow> char" where
  "digit_char d = char_of (48 + d)"

fun digits_of :: "nat \<Rightarrow> string" where
  "digits_of n = (if n < 10 then [digit_char n] else digits_of (n div 10) @ [digit_char (n mod 10)])"

declare digits_of.simps [simp del]

text \<open>Trailing zeros of the mantissa move into the exponent.\<close>

function strip10 :: "nat \<Rightarrow> int \<Rightarrow> nat \<times> int" where
  "strip10 m e = (if m = 0 \<or> m mod 10 \<noteq> 0 then (m, e) else strip10 (m div 10) (e + 1))"
  by pat_completeness auto
termination
  by (relation "measure fst") auto

declare strip10.simps [simp del]

text \<open>
  \<^verbatim>\<open>Number::toString\<close> of ECMAScript for a positive number with the \<open>k\<close> digits \<open>ds\<close> and
  the decimal point after the \<open>n\<close>-th digit: positional notation for \<open>-6 < n \<le> 21\<close>,
  exponent notation outside.
\<close>

definition pos_to_string :: "nat \<Rightarrow> int \<Rightarrow> string" where
  "pos_to_string m e =
     (let (s, e') = strip10 m e;
          ds = digits_of s;
          k = int (length ds);
          n = k + e'
      in if k \<le> n \<and> n \<le> 21 then ds @ replicate (nat (n - k)) CHR ''0''
         else if 0 < n \<and> n \<le> 21 then take (nat n) ds @ ''.'' @ drop (nat n) ds
         else if - 6 < n \<and> n \<le> 0 then ''0.'' @ replicate (nat (- n)) CHR ''0'' @ ds
         else (if k = 1 then ds else take 1 ds @ ''.'' @ drop 1 ds)
              @ ''e'' @ (if n - 1 < 0 then ''-'' else ''+'') @ digits_of (nat \<bar>n - 1\<bar>))"

fun num_to_string :: "jsnum \<Rightarrow> string" where
  "num_to_string NaN = ''NaN''"
| "num_to_string (Infinity neg) = (if neg then ''-Infinity'' else ''Infinity'')"
| "num_to_string (Fin m e) =
     (if m = 0 then ''0''
      else if m < 0 then ''-'' @ pos_to_string (nat (- m)) e
      else pos_to_string (nat m) e)"

subsection \<open>Values to strings\<close>

text \<open>
  The conversion a template literal (\<^verbatim>\<open>`${v}`\<close>) applies. An array prints its elements
  separated by commas, with \<^verbatim>\<open>null\<close> and \<^verbatim>\<open>undefined\<close> elements printed as nothing;
  a plain object prints as \<^verbatim>\<open>[object Object]\<close>.
\<close>

fun to_string :: "jsval \<Rightarrow> string" where
  "to_string JNull = ''null''"
| "to_string JUndefined = ''undefined''"
| "to_string (JBool b) = (if b then ''true'' else ''false'')"
| "to_string (JNum n) = num_to_string n"
| "to_string (JStr s) = s"
| "to_string (JArr xs) = join '','' (map (\<lambda>v. if is_nullish v then [] else to_string v) xs)"
| "to_string (JObj kvs) = ''[object Object]''"

text \<open>The conversion \<^verbatim>\<open>Array.prototype.join\<close> applies to one element.\<close>

definition elem_string :: "jsval \<Rightarrow> string" where
  "elem_string v = (if is_nullish v then [] else to_string v)"

text \<open>\<^verbatim>\<open>xs.join(sep)\<close> on an array of values.\<close>

definition join_values :: "string \<Rightarrow> jsval list \<Rightarrow> string" where
  "join_values sep xs = join sep (map elem_string xs)"

text \<open>
  Reading the property \<open>k\<close> of a value: a \<^verbatim>\<open>TypeError\<close> on \<^verbatim>\<open>null\<close> and
  \<^verbatim>\<open>undefined\<close>, the stored value on an object that has the key, \<^verbatim>\<open>undefined\<close>
  otherwise (the builder reads only \<open>field\<close>, \<open>value\<close>, \<open>fields\<close> and \<open>order\<close>, which no
  primitive and no array has).
\<close>

fun get_prop :: "jsval \<Rightarrow> string \<Rightarrow> error + jsval" where
  "get_prop JNull k = Inl TypeError"
| "get_prop JUndefined k = Inl TypeError"
| "get_prop (JObj kvs) k = Inr (case map_of kvs k of None \<Rightarrow> JUndefined | Some v \<Rightarrow> v)"
| "get_prop _ k = Inr JUndefined"

subsection \<open>Strings to numbers\<close>

definition is_digit :: "char \<Rightarrow> bool" where
  "is_digit c = (48 \<le> (of_char c :: nat) \<and> (of_char c :: nat) \<le> 57)"

text \<open>The value of a digit in base 16, if it is one.\<close>

definition hex_val :: "char \<Rightarrow> nat option" where
  "hex_val c =
     (let n = (of_char c :: nat)
      in if 48 \<le> n \<and> n \<le> 57 then Some (n - 48)
         else if 65 \<le> n \<and> n \<le> 70 then Some (n - 55)
         else if 97 \<le> n \<and> n \<le> 102 then Some (n - 87)
         else None)"

definition radix_val :: "nat \<Rightarrow> char \<Rightarrow> nat option" where
  "radix_val r c = (case hex_val c of None \<Rightarrow> None | Some d \<Rightarrow> if d < r then Some d else None)"

definition is_radix_digit :: "nat \<Rightarrow> char \<Rightarrow> bool" where
  "is_radix_digit r c = (radix_val r c \<noteq> None)"

text \<open>The number a string of digits denotes, most significant digit first.\<close>

definition nat_of_digits :: "nat \<Rightarrow> string \<Rightarrow> nat" where
  "nat_of_digits r ds = foldl (\<lambda>acc c. acc * r + (case radix_val r c of None \<Rightarrow> 0 | Some d \<Rightarrow> d)) 0 ds"

text \<open>White space of the 8-bit range: TAB, LF, VT, FF, CR, SP and NBSP.\<close>

definition is_ws :: "char \<Rightarrow> bool" where
  "is_ws c = ((of_char c :: nat) \<in> {9, 10, 11, 12, 13, 32, 160})"

definition trim_left :: "string \<Rightarrow> string" where
  "trim_left s = dropWhile is_ws s"

definition trim :: "string \<Rightarrow> string" where
  "trim s = rev (dropWhile is_ws (rev (dropWhile is_ws s)))"

definition starts_with :: "string \<Rightarrow> string \<Rightarrow> bool" where
  "starts_with p s = (take (length p) s = p)"

definition drop_sign :: "string \<Rightarrow> string" where
  "drop_sign s = (case s of c # cs \<Rightarrow> if c = CHR ''+'' \<or> c = CHR ''-'' then cs else s | [] \<Rightarrow> [])"

text \<open>
  \<^verbatim>\<open>isNaN(parseFloat(s))\<close>: \<^verbatim>\<open>parseFloat\<close> skips leading white space and reads the longest
  prefix that is a decimal literal; it yields \<^verbatim>\<open>NaN\<close> exactly when there is no such prefix,
  that is unless, after an optional sign, the text starts with \<^verbatim>\<open>Infinity\<close>, with a digit,
  or with a point followed by a digit.
\<close>

definition parseFloat_isNaN :: "string \<Rightarrow> bool" where
  "parseFloat_isNaN s =
     (let t = drop_sign (trim_left s)
      in \<not> (starts_with ''Infinity'' t
            \<or> (case t of c # cs \<Rightarrow>
                  is_digit c \<or> (c = CHR ''.'' \<and> (case cs of d # _ \<Rightarrow> is_digit d | [] \<Rightarrow> False))
                | [] \<Rightarrow> False)))"

text \<open>
  A decimal literal without sign, read to the end of the text:
  \<^verbatim>\<open>digits [. [digits]] [exponent]\<close> or \<^verbatim>\<open>. digits [exponent]\<close>. The result is the pair
  \<open>(m, e)\<close> of the value \<open>m * 10 ^ e\<close>.
\<close>

definition parse_exponent :: "string \<Rightarrow> int option" where
  "parse_exponent s =
     (case s of
        [] \<Rightarrow> Some 0
      | c # cs \<Rightarrow>
          if c = CHR ''e'' \<or> c = CHR ''E'' then
            (let ds = drop_sign cs
             in if ds \<noteq> [] \<and> list_all is_digit ds
                then Some ((if starts_with ''-'' cs then - 1 else 1) * int (nat_of_digits 10 ds))
                else None)
          else None)"

definition parse_decimal :: "string \<Rightarrow> (nat \<times> int) option" where
  "parse_decimal s =
     (let ip = takeWhile is_digit s;
          r1 = dropWhile is_digit s;
          has_point = starts_with ''.'' r1;
          fp = (if has_point then takeWhile is_digit (drop 1 r1) else []);
          r2 = (if has_point then dropWhile is_digit (drop 1 r1) else r1)
      in if ip = [] \<and> fp = [] then None
         else (case parse_exponent r2 of
                 None \<Rightarrow> None
               | Some x \<Rightarrow> Some (nat_of_digits 10 (ip @ fp), x - int (length fp))))"

text \<open>
  A magnitude \<open>m * 10 ^ e\<close> from \<open>2 ^ 1024 - 2 ^ 970\<close> on rounds to \<^verbatim>\<open>Infinity\<close> as a
  double.
\<close>

definition overflows :: "nat \<Rightarrow> int \<Rightarrow> bool" where
  "overflows m e =
     (if 0 \<le> e then (2 ^ 1024 - 2 ^ 970 :: int) \<le> int m * 10 ^ nat e
      else (2 ^ 1024 - 2 ^ 970 :: int) * 10 ^ nat (- e) \<le> int m)"

text \<open>
  \<^verbatim>\<open>isFinite(Number(s))\<close> for a string: white space is trimmed on both sides; the empty
  text is \<open>0\<close>; a literal with prefix \<^verbatim>\<open>0x\<close>, \<^verbatim>\<open>0o\<close> or \<^verbatim>\<open>0b\<close> is an unsigned integer in
  that base; otherwise the text is an optionally signed decimal literal or \<^verbatim>\<open>Infinity\<close>;
  anything else is \<^verbatim>\<open>NaN\<close>.
\<close>

definition prefixed_finite :: "nat \<Rightarrow> string \<Rightarrow> bool" where
  "prefixed_finite r ds = (ds \<noteq> [] \<and> list_all (is_radix_digit r) ds \<and> \<not> overflows (nat_of_digits r ds) 0)"

definition string_isFinite :: "string \<Rightarrow> bool" where
  "string_isFinite s =
     (let t = trim s
      in if t = [] then True
         else if starts_with ''0x'' t \<or> starts_with ''0X'' t then prefixed_finite 16 (drop 2 t)
         else if starts_with ''0o'' t \<or> starts_with ''0O'' t then prefixed_finite 8 (drop 2 t)
         else if starts_with ''0b'' t \<or> starts_with ''0B'' t then prefixed_finite 2 (drop 2 t)
         else (case parse_decimal (drop_sign t) of
                 None \<Rightarrow> False
               | Some (m, e) \<Rightarrow> \<not> overflows m e))"

text \<open>\<^verbatim>\<open>isFinite(v)\<close>: the value is converted to a number first.\<close>

fun isFinite :: "jsval \<Rightarrow> bool" where
  "isFinite JUndefined = False"
| "isFinite JNull = True"
| "isFinite (JBool b) = True"
| "isFinite (JNum (Fin m e)) = True"
| "isFinite (JNum _) = False"
| "isFinite (JStr s) = string_isFinite s"
| "isFinite v = string_isFinite (to_string v)"

text \<open>
  \<^verbatim>\<open>parseInt(v)\<close> with no radix: the value is printed, leading white space and a sign
  are skipped, a prefix \<^verbatim>\<open>0x\<close> selects base 16, and the longest run of digits is read;
  no digit at all gives \<^verbatim>\<open>NaN\<close>. (An integer beyond \<open>2 ^ 53\<close> is kept exact here, where
  JavaScript rounds it to the nearest double.)
\<close>

definition parseInt :: "jsval \<Rightarrow> jsnum" where
  "parseInt v =
     (let t = trim_left (to_string v);
          neg = starts_with ''-'' t;
          u = drop_sign t;
          hex = (starts_with ''0x'' u \<or> starts_with ''0X'' u);
          r = (if hex then 16 else 10);
          ds = takeWhile (is_radix_digit r) (if hex then drop 2 u else u)
      in if ds = [] then NaN
         else Fin ((if neg then - 1 else 1) * int (nat_of_digits r ds)) 0)"

text \<open>\<^verbatim>\<open>String.prototype.toUpperCase\<close> on ASCII text.\<close>

definition upper_char :: "char \<Rightarrow> char" where
  "upper_char c = (if 97 \<le> (of_char c :: nat) \<and> (of_char c :: nat) \<le> 122 then char_of ((of_char c :: nat) - 32) else c)"

definition toUpperCase :: "string \<Rightarrow> string" where
  "toUpperCase s = map upper_char s"

section \<open>The query builder\<close>

text \<open>
  An entry of \<^verbatim>\<open>this.query\<close>: \<^verbatim>\<open>{ type, params }\<close>. The type is whatever the caller
  passed (for \<^verbatim>\<open>where\<close> it is the operation argument), so it is a value, compared
  with \<^verbatim>\<open>===\<close> against the literals of each \<^verbatim>\<open>switch\<close>.
\<close>

record component =
  ctype :: jsval
  params :: jsval

text \<open>
  The instance: \<^verbatim>\<open>this.bucket\<close>, \<^verbatim>\<open>this.query\<close> and \<^verbatim>\<open>this._values\<close>. A method that
  throws ends the run: the model returns the error and no instance.
\<close>

record QueryBuilder =
  bucket :: jsval
  query :: "component list"
  pvalues :: "jsval list"

text \<open>The object \<^verbatim>\<open>{ query, values }\<close> that \<^verbatim>\<open>build\<close> returns.\<close>

record built =
  rquery :: string
  rvalues :: "jsval list"

text \<open>\<^verbatim>\<open>constructor (bucket = null)\<close>: the default replaces \<^verbatim>\<open>undefined\<close> only.\<close>

definition new_QueryBuilder :: "jsval \<Rightarrow> QueryBuilder" where
  "new_QueryBuilder b =
     \<lparr>bucket = (if b = JUndefined then JNull else b), query = [], pvalues = []\<rparr>"

text \<open>\<^verbatim>\<open>_parameterValue\<close>: the value is appended and its placeholder returned.\<close>

definition parameterValue :: "jsval \<Rightarrow> jsval list \<Rightarrow> string \<times> jsval list" where
  "parameterValue v vs = (CHR ''$'' # digits_of (length (vs @ [v])), vs @ [v])"

definition add :: "jsval \<Rightarrow> jsval \<Rightarrow> QueryBuilder \<Rightarrow> QueryBuilder" where
  "add t p qb = qb\<lparr>query := query qb @ [\<lparr>ctype = t, params = p\<rparr>]\<rparr>"

definition select :: "jsval list \<Rightarrow> QueryBuilder \<Rightarrow> QueryBuilder" where
  "select selected qb = add (JStr ''select'') (JArr selected) qb"

definition from_name :: "jsval \<Rightarrow> QueryBuilder \<Rightarrow> QueryBuilder" where
  "from_name name qb = add (JStr ''from'') name qb"

definition limit :: "jsval \<Rightarrow> QueryBuilder \<Rightarrow> error + QueryBuilder" where
  "limit amount qb =
     (if is_nullish amount then Inl (QueryError ''Amount must be specified'')
      else Inr (add (JStr ''limit'') amount qb))"

definition skip :: "jsval \<Rightarrow> QueryBuilder \<Rightarrow> error + QueryBuilder" where
  "skip amount qb =
     (if is_nullish amount then Inl (QueryError ''Amount must be specified'')
      else Inr (add (JStr ''skip'') amount qb))"

text \<open>
  \<^verbatim>\<open>sort (fields, order = 'ASC')\<close>: \<^verbatim>\<open>order.toUpperCase()\<close> is a \<^verbatim>\<open>TypeError\<close> unless the
  order is a string.
\<close>

definition sort_by :: "jsval \<Rightarrow> jsval \<Rightarrow> QueryBuilder \<Rightarrow> error + QueryBuilder" where
  "sort_by flds order qb =
     (if is_nullish flds then Inl (QueryError ''Required to have at least one field to sort'')
      else
        let flds' = (case flds of JStr s \<Rightarrow> JArr [flds] | _ \<Rightarrow> flds)
        in case (if order = JUndefined then JStr ''ASC'' else order) of
             JStr ord \<Rightarrow>
               if toUpperCase ord \<notin> set [''ASC'', ''DESC'']
               then Inl (QueryError ''Order must be ASC or DESC'')
               else Inr (add (JStr ''sort'')
                          (JObj [(''fields'', flds'), (''order'', JStr (toUpperCase ord))]) qb)
           | _ \<Rightarrow> Inl TypeError)"

definition where_clause :: "jsval \<Rightarrow> jsval \<Rightarrow> jsval \<Rightarrow> QueryBuilder \<Rightarrow> QueryBuilder" where
  "where_clause field operation val qb =
     add operation (JObj [(''field'', field), (''value'', val)]) qb"

definition rawWhere :: "jsval \<Rightarrow> QueryBuilder \<Rightarrow> QueryBuilder" where
  "rawWhere val qb = add (JStr ''rawWhere'') val qb"

subsection \<open>Rendering one clause\<close>

text \<open>
  \<^verbatim>\<open>_select\<close>: \<^verbatim>\<open>components.map\<close> and \<^verbatim>\<open>components.join\<close> exist on arrays only.
\<close>

definition select_clause :: "jsval \<Rightarrow> jsval \<Rightarrow> error + string" where
  "select_clause components bkt =
     (let components' = (if is_nullish components then JArr [JStr ''*''] else components)
      in case components' of
           JArr cs \<Rightarrow>
             Inr (''SELECT '' @
                  join_values '',''
                    (if \<not> is_nullish bkt
                     then map (\<lambda>c. JStr (''`'' @ to_string bkt @ ''`.'' @ to_string c)) cs
                     else cs))
         | _ \<Rightarrow> Inl TypeError)"

definition from_clause :: "jsval \<Rightarrow> string" where
  "from_clause bkt = ''FROM `'' @ to_string bkt @ ''`''"

text \<open>The \<^verbatim>\<open>switch\<close> of \<^verbatim>\<open>_where\<close> on the type of a comparison.\<close>

definition where_statement :: "jsval \<Rightarrow> jsval \<Rightarrow> string \<Rightarrow> error + string" where
  "where_statement t field v =
     (if t = JStr ''lt'' then Inr (to_string field @ '' < '' @ v)
      else if t = JStr ''lte'' then Inr (to_string field @ '' <= '' @ v)
      else if t = JStr ''gt'' then Inr (to_string field @ '' > '' @ v)
      else if t = JStr ''gte'' then Inr (to_string field @ '' >= '' @ v)
      else if t = JStr ''ne'' then Inr (to_string field @ '' != '' @ v)
      else if t = JStr ''eq'' then Inr (to_string field @ '' = '' @ v)
      else if t = JStr ''in'' then Inr (to_string field @ '' IN '' @ v)
      else if t = JStr ''nin'' then Inr (to_string field @ '' NOT IN '' @ v)
      else Inl (Error ''Not implemented''))"

text \<open>
  The loop of \<^verbatim>\<open>_where\<close>: the statements rendered so far and the parameter list are
  threaded through.
\<close>

fun where_statements :: "component list \<Rightarrow> jsval list \<Rightarrow> error + (string list \<times> jsval list)" where
  "where_statements [] vs = Inr ([], vs)"
| "where_statements (c # cs) vs =
     (case get_prop (params c) ''field'' of Inl e \<Rightarrow> Inl e | Inr field \<Rightarrow>
      case get_prop (params c) ''value'' of Inl e \<Rightarrow> Inl e | Inr v \<Rightarrow>
      let (v', vs') = (if is_nullish v then (''NULL'', vs) else parameterValue v vs)
      in case where_statement (ctype c) field v' of Inl e \<Rightarrow> Inl e | Inr st \<Rightarrow>
         case where_statements cs vs' of Inl e \<Rightarrow> Inl e | Inr (sts, vs'') \<Rightarrow>
         Inr (st # sts, vs''))"

definition where_section :: "component list \<Rightarrow> jsval list \<Rightarrow> error + (string \<times> jsval list)" where
  "where_section components vs =
     (case where_statements components vs of
        Inl e \<Rightarrow> Inl e
      | Inr (sts, vs') \<Rightarrow> Inr (''WHERE '' @ join ('' '' @ toUpperCase ''AND'' @ '' '') sts, vs'))"

text \<open>
  \<^verbatim>\<open>fields.map(field => [this._parameterValue(field), order].join(' '))\<close>: every field
  is bound as a parameter.
\<close>

fun sort_fields :: "jsval list \<Rightarrow> jsval \<Rightarrow> jsval list \<Rightarrow> string list \<times> jsval list" where
  "sort_fields [] order vs = ([], vs)"
| "sort_fields (f # fs) order vs =
     (let (p, vs') = parameterValue f vs;
          (sts, vs'') = sort_fields fs order vs'
      in (join '' '' [p, elem_string order] # sts, vs''))"

fun sort_statements :: "jsval list \<Rightarrow> jsval list \<Rightarrow> error + (string list \<times> jsval list)" where
  "sort_statements [] vs = Inr ([], vs)"
| "sort_statements (g # gs) vs =
     (case get_prop g ''fields'' of Inl e \<Rightarrow> Inl e | Inr flds \<Rightarrow>
      case get_prop g ''order'' of Inl e \<Rightarrow> Inl e | Inr order \<Rightarrow>
      case flds of
        JArr fs \<Rightarrow>
          (let (parts, vs') = sort_fields fs order vs
           in case sort_statements gs vs' of Inl e \<Rightarrow> Inl e | Inr (sts, vs'') \<Rightarrow>
              Inr (join '', '' parts # sts, vs''))
      | _ \<Rightarrow> Inl TypeError)"

definition sort_section :: "jsval list \<Rightarrow> jsval list \<Rightarrow> error + (string \<times> jsval list)" where
  "sort_section groups vs =
     (case sort_statements groups vs of
        Inl e \<Rightarrow> Inl e
      | Inr (sts, vs') \<Rightarrow> Inr (''ORDER BY '' @ join '', '' sts, vs'))"

definition limit_clause :: "jsval \<Rightarrow> string" where
  "limit_clause amount = ''LIMIT '' @ to_string amount"

definition skip_clause :: "jsval \<Rightarrow> string" where
  "skip_clause amount = ''OFFSET '' @ to_string amount"

subsection \<open>build\<close>

text \<open>The local variables of \<^verbatim>\<open>build\<close> that its first loop fills.\<close>

record clauses =
  c_select :: jsval
  c_from :: jsval
  c_where :: "component list"
  c_rawWhere :: "component option"
  c_limit :: jsval
  c_skip :: jsval
  c_sort :: "jsval list"

definition isNumeric :: "jsval \<Rightarrow> bool" where
  "isNumeric n = (\<not> parseFloat_isNaN (to_string n) \<and> isFinite n)"

text \<open>One round of the first loop: the \<^verbatim>\<open>switch\<close> has no default case.\<close>

definition collect :: "component \<Rightarrow> clauses \<Rightarrow> error + clauses" where
  "collect c cl =
     (let t = ctype c
      in if t = JStr ''from'' then Inr (cl\<lparr>c_from := params c\<rparr>)
         else if t = JStr ''select'' then Inr (cl\<lparr>c_select := params c\<rparr>)
         else if t \<in> set (map JStr [''lt'', ''lte'', ''gt'', ''gte'', ''ne'', ''in'', ''nin'', ''or'', ''eq''])
           then Inr (cl\<lparr>c_where := c_where cl @ [c]\<rparr>)
         else if t = JStr ''rawWhere'' then Inr (cl\<lparr>c_rawWhere := Some c\<rparr>)
         else if t = JStr ''limit'' then
           (if \<not> isNumeric (params c) then Inl (QueryError ''Limit parameter must be numeric'')
            else Inr (cl\<lparr>c_limit := JNum (parseInt (params c))\<rparr>))
         else if t = JStr ''skip'' then
           (if \<not> isNumeric (params c) then Inl (QueryError ''Skip parameter must be numeric'')
            else Inr (cl\<lparr>c_skip := JNum (parseInt (params c))\<rparr>))
         else if t = JStr ''sort'' then Inr (cl\<lparr>c_sort := c_sort cl @ [params c]\<rparr>)
         else Inr cl)"

fun collect_all :: "component list \<Rightarrow> clauses \<Rightarrow> error + clauses" where
  "collect_all [] cl = Inr cl"
| "collect_all (c # cs) cl =
     (case collect c cl of Inl e \<Rightarrow> Inl e | Inr cl' \<Rightarrow> collect_all cs cl')"

definition initial_clauses :: "QueryBuilder \<Rightarrow> clauses" where
  "initial_clauses qb =
     \<lparr>c_select = JNull, c_from = bucket qb, c_where = [], c_rawWhere = None,
      c_limit = JNull, c_skip = JNull, c_sort = []\<rparr>"

text \<open>
  The second half of \<^verbatim>\<open>build\<close>: the sections are pushed in the order of the source, the
  parameter list grows while the comparisons and the sort groups are rendered.
\<close>

definition render :: "jsval \<Rightarrow> jsval list \<Rightarrow> clauses \<Rightarrow> error + built" where
  "render this_bucket this_values cl =
     (case select_clause (c_select cl) (c_from cl) of Inl e \<Rightarrow> Inl e | Inr sel \<Rightarrow>
      let q1 = [sel] @ (if truthy this_bucket then [from_clause (c_from cl)] else [])
      in case (if length (c_where cl) > 0
               then (case where_section (c_where cl) this_values of
                       Inl e \<Rightarrow> Inl e | Inr (w, vs) \<Rightarrow> Inr (q1 @ [w], vs))
               else Inr (q1, this_values)) of
           Inl e \<Rightarrow> Inl e
         | Inr (q2, vs2) \<Rightarrow>
      let q3 = q2 @ (case c_rawWhere cl of
                       None \<Rightarrow> []
                     | Some rw \<Rightarrow> [join_values '' '' [JStr ''WHERE'', params rw]])
      in case (if length (c_sort cl) > 0
               then (case sort_section (c_sort cl) vs2 of
                       Inl e \<Rightarrow> Inl e | Inr (s, vs) \<Rightarrow> Inr (q3 @ [s], vs))
               else Inr (q3, vs2)) of
           Inl e \<Rightarrow> Inl e
         | Inr (q4, vs4) \<Rightarrow>
      let q5 = q4 @ (if \<not> is_nullish (c_limit cl) then [limit_clause (c_limit cl)] else []);
          q6 = q5 @ (if \<not> is_nullish (c_skip cl) then [skip_clause (c_skip cl)] else [])
      in Inr \<lparr>rquery = join '' '' q6, rvalues = vs4\<rparr>)"

text \<open>
  \<^verbatim>\<open>build\<close>: the returned values are a copy of \<^verbatim>\<open>this._values\<close>, which has grown by the
  parameters bound while rendering.
\<close>

definition build :: "QueryBuilder \<Rightarrow> error + (built \<times> QueryBuilder)" where
  "build qb =
     (case collect_all (query qb) (initial_clauses qb) of
        Inl e \<Rightarrow> Inl e
      | Inr cl \<Rightarrow>
          (case render (bucket qb) (pvalues qb) cl of
             Inl e \<Rightarrow> Inl e
           | Inr r \<Rightarrow> Inr (r, qb\<lparr>pvalues := rvalues r\<rparr>)))"

text \<open>What the caller of \<^verbatim>\<open>build\<close> receives.\<close>

definition result :: "QueryBuilder \<Rightarrow> error + built" where
  "result qb = (case build qb of Inl e \<Rightarrow> Inl e | Inr (r, qb') \<Rightarrow> Inr r)"

subsection \<open>Reading the log\<close>

text \<open>The types that the first loop of \<^verbatim>\<open>build\<close> hands to \<^verbatim>\<open>_where\<close>.\<close>

definition where_types :: "jsval list" where
  "where_types = map JStr [''lt'', ''lte'', ''gt'', ''gte'', ''ne'', ''in'', ''nin'', ''or'', ''eq'']"

text \<open>The entries of the log of one type, in the order of the calls.\<close>

definition entries :: "string \<Rightarrow> component list \<Rightarrow> component list" where
  "entries t cs = filter (\<lambda>c. ctype c = JStr t) cs"

definition comparisons :: "component list \<Rightarrow> component list" where
  "comparisons cs = filter (\<lambda>c. ctype c \<in> set where_types) cs"

text \<open>The name the \<^verbatim>\<open>FROM\<close> section prints: the last \<^verbatim>\<open>from\<close>, or else the bucket.\<close>

definition from_target :: "QueryBuilder \<Rightarrow> jsval" where
  "from_target qb =
     (if entries ''from'' (query qb) = [] then bucket qb
      else params (last (entries ''from'' (query qb))))"

text \<open>The entry \<^verbatim>\<open>rawWhere(text)\<close> appends.\<close>

definition raw_entry :: "jsval \<Rightarrow> component" where
  "raw_entry text = \<lparr>ctype = JStr ''rawWhere'', params = text\<rparr>"

subsection \<open>The parameters a build binds\<close>

text \<open>
  The two steps of \<^verbatim>\<open>build\<close> that bind parameters, each with the sections it pushes
  and the parameter list it leaves.
\<close>

definition where_part :: "clauses \<Rightarrow> jsval list \<Rightarrow> error + (string list \<times> jsval list)" where
  "where_part cl vs =
     (if length (c_where cl) > 0
      then (case where_section (c_where cl) vs of Inl e \<Rightarrow> Inl e | Inr (w, vs') \<Rightarrow> Inr ([w], vs'))
      else Inr ([], vs))"

definition sort_part :: "clauses \<Rightarrow> jsval list \<Rightarrow> error + (string list \<times> jsval list)" where
  "sort_part cl vs =
     (if length (c_sort cl) > 0
      then (case sort_section (c_sort cl) vs of Inl e \<Rightarrow> Inl e | Inr (s, vs') \<Rightarrow> Inr ([s], vs'))
      else Inr ([], vs))"

text \<open>The values that \<^verbatim>\<open>_where\<close> binds: those that are not \<^verbatim>\<open>null\<close>.\<close>

definition where_values :: "component list \<Rightarrow> jsval list" where
  "where_values cs =
     concat (map (\<lambda>c. case get_prop (params c) ''value'' of
                          Inr v \<Rightarrow> if is_nullish v then [] else [v]
                        | Inl e \<Rightarrow> []) cs)"

text \<open>The values that \<^verbatim>\<open>_sort\<close> binds: every field of every group.\<close>

definition sort_values :: "jsval list \<Rightarrow> jsval list" where
  "sort_values gs =
     concat (map (\<lambda>g. case get_prop g ''fields'' of Inr (JArr fs) \<Rightarrow> fs | _ \<Rightarrow> []) gs)"

definition bound_values :: "component list \<Rightarrow> jsval list" where
  "bound_values cs = where_values (comparisons cs) @ sort_values (map params (entries ''sort'' cs))"

text \<open>\<^verbatim>\<open>build()\<close> called twice in a row on the same instance: both results.\<close>

definition build_twice :: "QueryBuilder \<Rightarrow> error + (built \<times> built)" where
  "build_twice qb =
     (case build qb of
        Inl e \<Rightarrow> Inl e
      | Inr (r1, qb1) \<Rightarrow>
          (case build qb1 of Inl e \<Rightarrow> Inl e | Inr (r2, qb2) \<Rightarrow> Inr (r1, r2)))"

subsection \<open>Placeholders\<close>

text \<open>
  The placeholders of a text, in the order in which they occur: a placeholder is a
  \<^verbatim>\<open>$\<close> followed by as many digits as there are.
\<close>

function placeholders :: "string \<Rightarrow> nat list" where
  "placeholders [] = []"
| "placeholders (c # cs) =
     (if c = CHR ''$'' \<and> takeWhile is_digit cs \<noteq> []
      then nat_of_digits 10 (takeWhile is_digit cs) # placeholders (dropWhile is_digit cs)
      else placeholders cs)"
  by pat_completeness auto
termination
  by (relation "measure length") (auto simp: length_dropWhile_le less_Suc_eq_le)

definition dollar_free :: "string \<Rightarrow> bool" where
  "dollar_free s = (CHR ''$'' \<notin> set s)"

text \<open>
  A text whose placeholders are \<open>ns\<close> whatever follows it, as long as what follows does
  not start with a digit.
\<close>

definition holds :: "string \<Rightarrow> nat list \<Rightarrow> bool" where
  "holds s ns = (\<forall>rest. (rest = [] \<or> \<not> is_digit (hd rest)) \<longrightarrow>
                   placeholders (s @ rest) = ns @ placeholders rest)"

subsection \<open>Sequences of calls\<close>

text \<open>The methods that fill the builder, and a sequence of calls that stops at the first error.\<close>

datatype call =
    Select "jsval list"
  | From jsval
  | Limit jsval
  | Skip jsval
  | Sort jsval jsval
  | Where jsval jsval jsval
  | RawWhere jsval

fun apply_call :: "call \<Rightarrow> QueryBuilder \<Rightarrow> error + QueryBuilder" where
  "apply_call (Select selected) qb = Inr (select selected qb)"
| "apply_call (From name) qb = Inr (from_name name qb)"
| "apply_call (Limit amount) qb = limit amount qb"
| "apply_call (Skip amount) qb = skip amount qb"
| "apply_call (Sort flds order) qb = sort_by flds order qb"
| "apply_call (Where field operation val) qb = Inr (where_clause field operation val qb)"
| "apply_call (RawWhere val) qb = Inr (rawWhere val qb)"

fun run :: "call list \<Rightarrow> QueryBuilder \<Rightarrow> error + QueryBuilder" where
  "run [] qb = Inr qb"
| "run (c # cs) qb = (case apply_call c qb of Inl e \<Rightarrow> Inl e | Inr qb' \<Rightarrow> run cs qb')"

text \<open>
  The texts of a call that \<^verbatim>\<open>build\<close> copies into the query as they are: the columns of
  \<^verbatim>\<open>select\<close>, the name of \<^verbatim>\<open>from\<close>, the field of \<^verbatim>\<open>where\<close> and the text of \<^verbatim>\<open>rawWhere\<close>.
\<close>

fun call_texts :: "call \<Rightarrow> string list" where
  "call_texts (Select selected) = map to_string selected"
| "call_texts (From name) = [to_string name]"
| "call_texts (Where field operation val) = [to_string field]"
| "call_texts (RawWhere val) = [elem_string val]"
| "call_texts _ = []"

text \<open>The same texts, read from an entry of the log.\<close>

definition entry_texts :: "component \<Rightarrow> string list" where
  "entry_texts c =
     (if ctype c = JStr ''select'' then (case params c of JArr xs \<Rightarrow> map to_string xs | _ \<Rightarrow> [])
      else if ctype c = JStr ''from'' then [to_string (params c)]
      else if ctype c \<in> set where_types
        then (case get_prop (params c) ''field'' of Inr f \<Rightarrow> [to_string f] | Inl e \<Rightarrow> [])
      else if ctype c = JStr ''rawWhere'' then [elem_string (params c)]
      else if ctype c = JStr ''sort''
        then (case get_prop (params c) ''order'' of Inr ord \<Rightarrow> [elem_string ord] | Inl e \<Rightarrow> [])
      else [])"

text \<open>The text of the raw section: that of the last \<^verbatim>\<open>rawWhere\<close>, if any.\<close>

definition raw_text :: "component list \<Rightarrow> string" where
  "raw_text cs =
     (if entries ''rawWhere'' cs = [] then []
      else elem_string (params (last (entries ''rawWhere'' cs))))"

text \<open>The entries other than those of \<^verbatim>\<open>rawWhere\<close>.\<close>

definition without_raw :: "component list \<Rightarrow> component list" where
  "without_raw cs = filter (\<lambda>c. ctype c \<noteq> JStr ''rawWhere'') cs"

text \<open>A log none of whose copied texts holds a \<^verbatim>\<open>$\<close>.\<close>

definition clean_log :: "component list \<Rightarrow> bool" where
  "clean_log cs = (\<forall>c\<in>set cs. \<forall>t\<in>set (entry_texts c). dollar_free t)"

subsection \<open>Numeric amounts\<close>




section \<open>Interpreting a query object\<close>

text \<open>
  Modelled from the spec: the directive nodes. \<^verbatim>\<open>interpret\<close> calls \<^verbatim>\<open>QueryInterpreter\<close> of
  \<^verbatim>\<open>./queryinterpreter\<close>, which is not among the sources, and reads from each node it
  returns \<^verbatim>\<open>directive.type\<close>, \<^verbatim>\<open>value\<close> and \<^verbatim>\<open>toString()\<close>. The spec gives the node as
  a type, a field for a comparison, and a value that is a sequence of nodes for a logical
  group. The eight comparison types:
\<close>

datatype cmp = LT | LTE | GT | GTE | NE | EQ | IN | NIN

text \<open>
  Modelled from the spec: the name of a comparison type, as \<^verbatim>\<open>directive.type\<close> gives it
  and as the \<^verbatim>\<open>switch\<close> of \<^verbatim>\<open>interpret\<close> spells it.
\<close>

fun type_name :: "cmp \<Rightarrow> string" where
  "type_name LT = ''lt''"
| "type_name LTE = ''lte''"
| "type_name GT = ''gt''"
| "type_name GTE = ''gte''"
| "type_name NE = ''ne''"
| "type_name EQ = ''eq''"
| "type_name IN = ''in''"
| "type_name NIN = ''nin''"

text \<open>
  Modelled from the spec: the symbol a comparison renders with (\<open>eq\<close> as \<^verbatim>\<open>=\<close>, \<open>ne\<close> as
  \<^verbatim>\<open>!=\<close>, \<open>lt\<close> as \<^verbatim>\<open><\<close>, \<open>lte\<close> as \<^verbatim>\<open><=\<close>, \<open>gt\<close> as \<^verbatim>\<open>>\<close>, \<open>gte\<close> as \<^verbatim>\<open>>=\<close>, \<open>in\<close> as
  \<^verbatim>\<open>IN\<close>, \<open>nin\<close> as \<^verbatim>\<open>NOT IN\<close>).
\<close>

fun symbol :: "cmp \<Rightarrow> string" where
  "symbol EQ = ''=''"
| "symbol NE = ''!=''"
| "symbol LT = ''<''"
| "symbol LTE = ''<=''"
| "symbol GT = ''>''"
| "symbol GTE = ''>=''"
| "symbol IN = ''IN''"
| "symbol NIN = ''NOT IN''"

text \<open>
  Modelled from the spec: a comparison with its field, and the parts of a logical group.
  \<^verbatim>\<open>_buildWhere\<close> tells three kinds of part apart: an array of comparisons (a nested
  array, a sub-group without operator), a node of type \<open>and\<close> or \<open>or\<close> whose value is again
  a sequence of parts, and any other node, a comparison.
\<close>

datatype leaf = Leaf cmp string jsval

datatype junction = J_and | J_or

datatype wpart = Single leaf | Group junction "wpart list" | Bundle "leaf list"

text \<open>
  Modelled from the spec: the nodes at the root of an interpreted query, one constructor
  per type with the value \<^verbatim>\<open>interpret\<close> reads from it: the columns of \<open>select\<close>, the
  amounts of \<open>skip\<close> and \<open>limit\<close>, the fields of \<open>sort\<close> each with its number, the parts of
  \<open>and\<close> and \<open>or\<close>, and a comparison that stands at the root without a field.
\<close>

datatype directive =
    DSelect "jsval list"
  | DSkip jsval
  | DLimit jsval
  | DSort "(jsval \<times> jsnum) list"
  | DAnd "wpart list"
  | DOr "wpart list"
  | DComparison cmp jsval

text \<open>Modelled from the spec: \<^verbatim>\<open>directive.type\<close> of a root node.\<close>

fun directive_type :: "directive \<Rightarrow> string" where
  "directive_type (DSelect _) = ''select''"
| "directive_type (DSkip _) = ''skip''"
| "directive_type (DLimit _) = ''limit''"
| "directive_type (DSort _) = ''sort''"
| "directive_type (DAnd _) = ''and''"
| "directive_type (DOr _) = ''or''"
| "directive_type (DComparison op _) = type_name op"

text \<open>
  Modelled from the spec: \<^verbatim>\<open>toString()\<close> of a comparison node, which is defined with the
  directive classes and not among the sources: field, symbol and value, a \<^verbatim>\<open>null\<close> value
  printed as \<^verbatim>\<open>NULL\<close>.
\<close>

definition leaf_toString :: "cmp \<Rightarrow> string \<Rightarrow> jsval \<Rightarrow> string" where
  "leaf_toString op field v =
     field @ '' '' @ symbol op @ '' '' @ (if is_nullish v then ''NULL'' else to_string v)"

text \<open>
  \<^verbatim>\<open>stringify\<close> of \<^verbatim>\<open>_buildWhere\<close>: a value that is not \<^verbatim>\<open>null\<close> is bound and replaced
  by its placeholder before the node is printed.
\<close>

fun stringify :: "leaf \<Rightarrow> jsval list \<Rightarrow> string \<times> jsval list" where
  "stringify (Leaf op field v) vs =
     (if \<not> is_nullish v
      then (let (p, vs') = parameterValue v vs in (leaf_toString op field (JStr p), vs'))
      else (leaf_toString op field v, vs))"

fun stringify_all :: "leaf list \<Rightarrow> jsval list \<Rightarrow> string list \<times> jsval list" where
  "stringify_all [] vs = ([], vs)"
| "stringify_all (l # ls) vs =
     (let (s, vs1) = stringify l vs; (ss, vs2) = stringify_all ls vs1 in (s # ss, vs2))"

text \<open>Modelled from the spec: \<^verbatim>\<open>directive.type\<close> of a logical group.\<close>

fun junction_name :: "junction \<Rightarrow> string" where
  "junction_name J_and = ''and''"
| "junction_name J_or = ''or''"

text \<open>
  The loop of \<^verbatim>\<open>_buildWhere\<close>: the statements one part pushes, and those of a sequence of
  parts. A group is rendered by the recursive call with its own comparator and wrapped in
  parentheses.
\<close>

fun build_part :: "wpart \<Rightarrow> jsval list \<Rightarrow> string list \<times> jsval list"
  and build_parts :: "wpart list \<Rightarrow> jsval list \<Rightarrow> string list \<times> jsval list" where
  "build_part (Bundle ls) vs = stringify_all ls vs"
| "build_part (Group j ps) vs =
     (let (sts, vs') = build_parts ps vs
      in ([''('' @ join ('' '' @ toUpperCase (junction_name j) @ '' '') sts @ '')''], vs'))"
| "build_part (Single l) vs = (let (s, vs') = stringify l vs in ([s], vs'))"
| "build_parts [] vs = ([], vs)"
| "build_parts (p # ps) vs =
     (let (a, vs1) = build_part p vs; (b, vs2) = build_parts ps vs1 in (a @ b, vs2))"

definition buildWhere :: "wpart list \<Rightarrow> string \<Rightarrow> jsval list \<Rightarrow> string \<times> jsval list" where
  "buildWhere sub comparator vs =
     (let (sts, vs') = build_parts sub vs in (join ('' '' @ comparator @ '' '') sts, vs'))"

text \<open>
  \<^verbatim>\<open>value > 0\<close> on a number.
\<close>

fun gt_zero :: "jsnum \<Rightarrow> bool" where
  "gt_zero NaN = False"
| "gt_zero (Infinity neg) = (\<not> neg)"
| "gt_zero (Fin m e) = (0 < m)"

fun replay_sort :: "(jsval \<times> jsnum) list \<Rightarrow> QueryBuilder \<Rightarrow> error + QueryBuilder" where
  "replay_sort [] qb = Inr qb"
| "replay_sort ((field, v) # rest) qb =
     (case sort_by field (JStr (if gt_zero v then ''ASC'' else ''DESC'')) qb of
        Inl e \<Rightarrow> Inl e
      | Inr qb' \<Rightarrow> replay_sort rest qb')"

text \<open>
  One round of the loop of \<^verbatim>\<open>interpret\<close>. The \<^verbatim>\<open>switch\<close> has a case for \<open>select\<close>,
  \<open>skip\<close>, \<open>limit\<close>, \<open>sort\<close> and \<open>and\<close>, throws on the eight comparison types, and has no
  case for \<open>or\<close>.
\<close>

fun replay :: "directive \<Rightarrow> QueryBuilder \<Rightarrow> error + QueryBuilder" where
  "replay (DSelect xs) qb = Inr (select xs qb)"
| "replay (DSkip v) qb = skip v qb"
| "replay (DLimit v) qb = limit v qb"
| "replay (DSort fvs) qb = replay_sort fvs qb"
| "replay (DAnd ps) qb =
     (let (text, vs') = buildWhere ps ''AND'' (pvalues qb)
      in Inr (rawWhere (JStr text) (qb\<lparr>pvalues := vs'\<rparr>)))"
| "replay (DComparison op v) qb =
     Inl (QueryError (''Found sub directive '' @ type_name op @ '' at root query''))"
| "replay (DOr ps) qb = Inr qb"

fun replay_all :: "directive list \<Rightarrow> QueryBuilder \<Rightarrow> error + QueryBuilder" where
  "replay_all [] qb = Inr qb"
| "replay_all (d # ds) qb = (case replay d qb of Inl e \<Rightarrow> Inl e | Inr qb' \<Rightarrow> replay_all ds qb')"

text \<open>
  \<^verbatim>\<open>interpret\<close> after the call of \<^verbatim>\<open>QueryInterpreter\<close>: the nodes are replayed, then
  \<^verbatim>\<open>build\<close> is called.
\<close>

definition interpret_directives :: "directive list \<Rightarrow> QueryBuilder \<Rightarrow> error + (built \<times> QueryBuilder)" where
  "interpret_directives ds qb = (case replay_all ds qb of Inl e \<Rightarrow> Inl e | Inr qb' \<Rightarrow> build qb')"

text \<open>
  Modelled from the spec: the comparison keys of \<^verbatim>\<open>QueryInterpreter\<close>, which is not
  among the sources. Its model, in this and the following definitions, reads the keys of
  the query object in their order. At the root, \<^verbatim>\<open>$select\<close>, \<^verbatim>\<open>$limit\<close>,
  \<^verbatim>\<open>$skip\<close> and \<^verbatim>\<open>$sort\<close> become root nodes, and so does a comparison key, which has no
  field there. A plain key with a literal value is an equality on that field; with an
  object value, every key of the object is read with the field threaded through (a
  comparison key gives a comparison on the field, a plain key a dotted field). \<^verbatim>\<open>$and\<close>
  and \<^verbatim>\<open>$or\<close> take an array, each element of which is read in turn and kept as a
  sub-group. Any other key that starts with \<^verbatim>\<open>$\<close> is an unknown directive. The conditions
  of the root are gathered in one \<open>and\<close> node, the only node from which \<^verbatim>\<open>interpret\<close>
  renders a condition.
\<close>

definition comparison_of_key :: "string \<Rightarrow> cmp option" where
  "comparison_of_key k =
     map_of [(''$lt'', LT), (''$lte'', LTE), (''$gt'', GT), (''$gte'', GTE),
             (''$ne'', NE), (''$eq'', EQ), (''$in'', IN), (''$nin'', NIN)] k"

text \<open>Modelled from the spec: the keys of the logical operators of \<^verbatim>\<open>QueryInterpreter\<close>.\<close>

definition junction_of_key :: "string \<Rightarrow> junction option" where
  "junction_of_key k = map_of [(''$and'', J_and), (''$or'', J_or)] k"

text \<open>
  Modelled from the spec: a key of \<^verbatim>\<open>QueryInterpreter\<close> that marks an operator, by its
  prefix.
\<close>

definition is_directive_key :: "string \<Rightarrow> bool" where
  "is_directive_key k = starts_with ''$'' k"

text \<open>
  Modelled from the spec: the failure of \<^verbatim>\<open>QueryInterpreter\<close> on a directive that is not
  recognised, an error of the builder's one kind that names the key. The model gives it
  also for a directive whose value has a shape the spec does not describe.
\<close>

definition unknown_directive :: "string \<Rightarrow> error" where
  "unknown_directive k = QueryError (''Unknown directive '' @ k)"

text \<open>
  Modelled from the spec: the field of a key nested in the object of a field of
  \<^verbatim>\<open>QueryInterpreter\<close>, composed with a dot.
\<close>

definition dotted :: "string option \<Rightarrow> string \<Rightarrow> string" where
  "dotted field k = (case field of None \<Rightarrow> k | Some f \<Rightarrow> f @ ''.'' @ k)"

text \<open>
  Modelled from the spec: the conditions of one element of a logical group of
  \<^verbatim>\<open>QueryInterpreter\<close>, kept as a nested array when they are all comparisons.
\<close>

definition as_bundle :: "wpart list \<Rightarrow> wpart list" where
  "as_bundle ps =
     (if list_all (\<lambda>p. case p of Single _ \<Rightarrow> True | _ \<Rightarrow> False) ps
      then [Bundle (concat (map (\<lambda>p. case p of Single l \<Rightarrow> [l] | _ \<Rightarrow> []) ps))]
      else ps)"

text \<open>
  Modelled from the spec: the conditions \<^verbatim>\<open>QueryInterpreter\<close> reads from the entries of an
  object, from one entry, and from the elements of the array of a logical operator, each
  under the field that encloses it, if any.
\<close>

fun conditions :: "string option \<Rightarrow> (string \<times> jsval) list \<Rightarrow> error + wpart list"
  and condition :: "string option \<Rightarrow> string \<Rightarrow> jsval \<Rightarrow> error + wpart list"
  and elements :: "jsval list \<Rightarrow> error + wpart list" where
  "conditions field [] = Inr []"
| "conditions field ((k, v) # kvs) =
     (case condition field k v of Inl e \<Rightarrow> Inl e | Inr a \<Rightarrow>
      case conditions field kvs of Inl e \<Rightarrow> Inl e | Inr b \<Rightarrow> Inr (a @ b))"
| "condition field k v =
     (if is_directive_key k then
        (case junction_of_key k of
           Some j \<Rightarrow>
             (case v of
                JArr xs \<Rightarrow> (case elements xs of Inl e \<Rightarrow> Inl e | Inr ps \<Rightarrow> Inr [Group j ps])
              | _ \<Rightarrow> Inl (unknown_directive k))
         | None \<Rightarrow>
             (case (comparison_of_key k, field) of
                (Some op, Some f) \<Rightarrow> Inr [Single (Leaf op f v)]
              | _ \<Rightarrow> Inl (unknown_directive k)))
      else
        (case v of
           JObj kvs \<Rightarrow> conditions (Some (dotted field k)) kvs
         | _ \<Rightarrow> Inr [Single (Leaf EQ (dotted field k) v)]))"
| "elements [] = Inr []"
| "elements (x # xs) =
     (case (case x of JObj kvs \<Rightarrow> conditions None kvs | _ \<Rightarrow> Inl TypeError) of
        Inl e \<Rightarrow> Inl e
      | Inr a \<Rightarrow> (case elements xs of Inl e \<Rightarrow> Inl e | Inr b \<Rightarrow> Inr (as_bundle a @ b)))"

text \<open>
  Modelled from the spec: the root node \<^verbatim>\<open>QueryInterpreter\<close> makes of a directive key at
  the root that is not a logical operator.
\<close>

definition shaping :: "string \<Rightarrow> jsval \<Rightarrow> error + directive" where
  "shaping k v =
     (if k = ''$select'' then (case v of JArr xs \<Rightarrow> Inr (DSelect xs) | _ \<Rightarrow> Inl (unknown_directive k))
      else if k = ''$limit'' then Inr (DLimit v)
      else if k = ''$skip'' then Inr (DSkip v)
      else if k = ''$sort'' then
        (case v of
           JObj fs \<Rightarrow>
             (if list_all (\<lambda>(f, n). case n of JNum _ \<Rightarrow> True | _ \<Rightarrow> False) fs
              then Inr (DSort (map (\<lambda>(f, n). (JStr f, case n of JNum x \<Rightarrow> x | _ \<Rightarrow> NaN)) fs))
              else Inl (unknown_directive k))
         | _ \<Rightarrow> Inl (unknown_directive k))
      else (case comparison_of_key k of
              Some op \<Rightarrow> Inr (DComparison op v)
            | None \<Rightarrow> Inl (unknown_directive k)))"

text \<open>
  Modelled from the spec: the entries at the root of the query object of
  \<^verbatim>\<open>QueryInterpreter\<close>, split into root nodes and conditions.
\<close>

fun root_entries :: "(string \<times> jsval) list \<Rightarrow> error + (directive list \<times> wpart list)" where
  "root_entries [] = Inr ([], [])"
| "root_entries ((k, v) # kvs) =
     (if is_directive_key k \<and> junction_of_key k = None then
        (case shaping k v of Inl e \<Rightarrow> Inl e | Inr d \<Rightarrow>
         case root_entries kvs of Inl e \<Rightarrow> Inl e | Inr (ds, ws) \<Rightarrow> Inr (d # ds, ws))
      else
        (case condition None k v of Inl e \<Rightarrow> Inl e | Inr a \<Rightarrow>
         case root_entries kvs of Inl e \<Rightarrow> Inl e | Inr (ds, ws) \<Rightarrow> Inr (ds, a @ ws)))"

text \<open>
  Modelled from the spec: \<^verbatim>\<open>QueryInterpreter\<close> of \<^verbatim>\<open>./queryinterpreter\<close>, which is not
  among the sources. The root nodes come in the order of their keys, the conditions of
  the root follow in one \<open>and\<close> node.
\<close>

definition QueryInterpreter :: "jsval \<Rightarrow> error + directive list" where
  "QueryInterpreter q =
     (case q of
        JObj kvs \<Rightarrow>
          (case root_entries kvs of
             Inl e \<Rightarrow> Inl e
           | Inr (ds, ws) \<Rightarrow> Inr (ds @ (if ws = [] then [] else [DAnd ws])))
      | _ \<Rightarrow> Inr [])"

text \<open>\<^verbatim>\<open>interpret (query)\<close>, and what its caller receives.\<close>

definition interpret_query :: "jsval \<Rightarrow> QueryBuilder \<Rightarrow> error + (built \<times> QueryBuilder)" where
  "interpret_query q qb =
     (case QueryInterpreter q of Inl e \<Rightarrow> Inl e | Inr ds \<Rightarrow> interpret_directives ds qb)"

definition interpret_result :: "jsval \<Rightarrow> QueryBuilder \<Rightarrow> error + built" where
  "interpret_result q qb = (case interpret_query q qb of Inl e \<Rightarrow> Inl e | Inr (r, qb') \<Rightarrow> Inr r)"


subsection \<open>The texts of a node\<close>

text \<open>
  The texts of the nodes that end up in the query as they are: the field of a comparison,
  which its \<^verbatim>\<open>toString()\<close> prints, and the columns of \<open>select\<close>.
\<close>

fun leaf_field :: "leaf \<Rightarrow> string" where
  "leaf_field (Leaf op field v) = field"

fun part_fields :: "wpart \<Rightarrow> string list" where
  "part_fields (Single l) = [leaf_field l]"
| "part_fields (Group j ps) = concat (map part_fields ps)"
| "part_fields (Bundle ls) = map leaf_field ls"

fun directive_texts :: "directive \<Rightarrow> string list" where
  "directive_texts (DSelect xs) = map to_string xs"
| "directive_texts (DAnd ps) = concat (map part_fields ps)"
| "directive_texts _ = []"

fun is_and :: "directive \<Rightarrow> bool" where
  "is_and (DAnd ps) = True"
| "is_and _ = False"

text \<open>
  An entry that the loop of \<^verbatim>\<open>interpret\<close> appends for a node other than \<open>and\<close>, none of
  whose copied texts holds a \<^verbatim>\<open>$\<close>.
\<close>

definition replayed :: "component \<Rightarrow> bool" where
  "replayed e = (ctype e \<in> set (map JStr [''select'', ''skip'', ''limit'', ''sort''])
                 \<and> (\<forall>t\<in>set (entry_texts e). dollar_free t))"


section \<open>Properties\<close>

subsection \<open>Evaluation\<close>

lemma digits_of_Suc0: "digits_of (Suc 0) = ''1''"
  by code_simp

lemmas build_defs =
  build_def render_def initial_clauses_def collect_def new_QueryBuilder_def add_def
  select_clause_def from_clause_def where_section_def sort_section_def limit_clause_def
  skip_clause_def join_values_def elem_string_def parameterValue_def where_statement_def

subsection \<open>The first loop of build\<close>

text \<open>
  The loop keeps the comparisons and the sort groups in the order of the calls, and the
  last entry of every other type.
\<close>

lemma collect_all_append:
  "collect_all (xs @ ys) cl = (case collect_all xs cl of Inl e \<Rightarrow> Inl e | Inr cl' \<Rightarrow> collect_all ys cl')"
  by (induction xs arbitrary: cl) (auto split: sum.splits)

lemma collect_cases:
  assumes "collect c cl = Inr cl'"
  shows "c_where cl' = c_where cl @ comparisons [c]"
    and "c_sort cl' = c_sort cl @ map params (entries ''sort'' [c])"
    and "c_rawWhere cl' = (if entries ''rawWhere'' [c] = [] then c_rawWhere cl else Some c)"
    and "c_from cl' = (if entries ''from'' [c] = [] then c_from cl else params c)"
    and "c_select cl' = (if entries ''select'' [c] = [] then c_select cl else params c)"
    and "c_limit cl' = (if entries ''limit'' [c] = [] then c_limit cl else JNum (parseInt (params c)))"
    and "c_skip cl' = (if entries ''skip'' [c] = [] then c_skip cl else JNum (parseInt (params c)))"
  using assms
  by (auto simp: collect_def comparisons_def entries_def where_types_def Let_def split: if_splits)

lemma collect_all_where:
  "collect_all cs cl = Inr cl' \<Longrightarrow> c_where cl' = c_where cl @ comparisons cs"
proof (induction cs arbitrary: cl)
  case Nil
  then show ?case by (simp add: comparisons_def)
next
  case (Cons c cs)
  then obtain cl1 where 1: "collect c cl = Inr cl1" and 2: "collect_all cs cl1 = Inr cl'"
    by (auto split: sum.splits)
  show ?case
    using Cons.IH [OF 2] collect_cases(1) [OF 1] by (simp add: comparisons_def)
qed

lemma collect_all_sort:
  "collect_all cs cl = Inr cl' \<Longrightarrow> c_sort cl' = c_sort cl @ map params (entries ''sort'' cs)"
proof (induction cs arbitrary: cl)
  case Nil
  then show ?case by (simp add: entries_def)
next
  case (Cons c cs)
  then obtain cl1 where 1: "collect c cl = Inr cl1" and 2: "collect_all cs cl1 = Inr cl'"
    by (auto split: sum.splits)
  show ?case
    using Cons.IH [OF 2] collect_cases(2) [OF 1] by (simp add: entries_def)
qed

lemma collect_all_rawWhere:
  "collect_all cs cl = Inr cl' \<Longrightarrow>
   c_rawWhere cl' = (if entries ''rawWhere'' cs = [] then c_rawWhere cl else Some (last (entries ''rawWhere'' cs)))"
proof (induction cs arbitrary: cl)
  case Nil
  then show ?case by (simp add: entries_def)
next
  case (Cons c cs)
  then obtain cl1 where 1: "collect c cl = Inr cl1" and 2: "collect_all cs cl1 = Inr cl'"
    by (auto split: sum.splits)
  show ?case
    using Cons.IH [OF 2] collect_cases(3) [OF 1] by (simp add: entries_def)
qed

lemma collect_all_from:
  "collect_all cs cl = Inr cl' \<Longrightarrow>
   c_from cl' = (if entries ''from'' cs = [] then c_from cl else params (last (entries ''from'' cs)))"
proof (induction cs arbitrary: cl)
  case Nil
  then show ?case by (simp add: entries_def)
next
  case (Cons c cs)
  then obtain cl1 where 1: "collect c cl = Inr cl1" and 2: "collect_all cs cl1 = Inr cl'"
    by (auto split: sum.splits)
  show ?case
    using Cons.IH [OF 2] collect_cases(4) [OF 1] by (simp add: entries_def)
qed

lemma collect_all_select:
  "collect_all cs cl = Inr cl' \<Longrightarrow>
   c_select cl' = (if entries ''select'' cs = [] then c_select cl else params (last (entries ''select'' cs)))"
proof (induction cs arbitrary: cl)
  case Nil
  then show ?case by (simp add: entries_def)
next
  case (Cons c cs)
  then obtain cl1 where 1: "collect c cl = Inr cl1" and 2: "collect_all cs cl1 = Inr cl'"
    by (auto split: sum.splits)
  show ?case
    using Cons.IH [OF 2] collect_cases(5) [OF 1] by (simp add: entries_def)
qed

lemma collect_all_limit:
  "collect_all cs cl = Inr cl' \<Longrightarrow>
   c_limit cl' = (if entries ''limit'' cs = [] then c_limit cl
                  else JNum (parseInt (params (last (entries ''limit'' cs)))))"
proof (induction cs arbitrary: cl)
  case Nil
  then show ?case by (simp add: entries_def)
next
  case (Cons c cs)
  then obtain cl1 where 1: "collect c cl = Inr cl1" and 2: "collect_all cs cl1 = Inr cl'"
    by (auto split: sum.splits)
  show ?case
    using Cons.IH [OF 2] collect_cases(6) [OF 1] by (simp add: entries_def)
qed

lemma collect_all_skip:
  "collect_all cs cl = Inr cl' \<Longrightarrow>
   c_skip cl' = (if entries ''skip'' cs = [] then c_skip cl
                  else JNum (parseInt (params (last (entries ''skip'' cs)))))"
proof (induction cs arbitrary: cl)
  case Nil
  then show ?case by (simp add: entries_def)
next
  case (Cons c cs)
  then obtain cl1 where 1: "collect c cl = Inr cl1" and 2: "collect_all cs cl1 = Inr cl'"
    by (auto split: sum.splits)
  show ?case
    using Cons.IH [OF 2] collect_cases(7) [OF 1] by (simp add: entries_def)
qed

subsection \<open>The sections of the rendered query\<close>

lemma toUpperCase_AND: "toUpperCase ''AND'' = ''AND''"
  by code_simp

lemma where_statements_length:
  "where_statements cs vs = Inr (sts, vs') \<Longrightarrow> length sts = length cs"
  by (induction cs arbitrary: vs sts) (auto split: sum.splits prod.splits if_splits simp: Let_def)

lemma where_section_shape:
  assumes "where_section cs vs = Inr (w, vs')"
  shows "\<exists>sts. w = ''WHERE '' @ join '' AND '' sts \<and> length sts = length cs"
  using assms
  by (auto simp: where_section_def toUpperCase_AND split: sum.splits dest: where_statements_length)

lemma sort_section_shape:
  assumes "sort_section gs vs = Inr (s, vs')"
  shows "\<exists>ord. s = ''ORDER BY '' @ ord"
  using assms by (auto simp: sort_section_def split: sum.splits)

lemma select_clause_shape:
  assumes "select_clause cs b = Inr s"
  shows "\<exists>sel. s = ''SELECT '' @ sel"
  using assms by (auto simp: select_clause_def Let_def split: jsval.splits if_splits)

lemma build_sections:
  assumes "build qb = Inr (r, qb')"
  shows "\<exists>sel whr ord.
     rquery r = join '' ''
       ([''SELECT '' @ sel]
        @ (if truthy (bucket qb) then [''FROM `'' @ to_string (from_target qb) @ ''`''] else [])
        @ (if comparisons (query qb) \<noteq> [] then [''WHERE '' @ join '' AND '' whr] else [])
        @ (if entries ''rawWhere'' (query qb) \<noteq> []
           then [''WHERE '' @ elem_string (params (last (entries ''rawWhere'' (query qb))))] else [])
        @ (if entries ''sort'' (query qb) \<noteq> [] then [''ORDER BY '' @ ord] else [])
        @ (if entries ''limit'' (query qb) \<noteq> []
           then [''LIMIT '' @ num_to_string (parseInt (params (last (entries ''limit'' (query qb)))))]
           else [])
        @ (if entries ''skip'' (query qb) \<noteq> []
           then [''OFFSET '' @ num_to_string (parseInt (params (last (entries ''skip'' (query qb)))))]
           else []))
     \<and> length whr = length (comparisons (query qb))"
proof -
  from assms obtain cl where cl: "collect_all (query qb) (initial_clauses qb) = Inr cl"
    and rd: "render (bucket qb) (pvalues qb) cl = Inr r"
    by (auto simp: build_def split: sum.splits)
  have w: "c_where cl = comparisons (query qb)"
    using collect_all_where [OF cl] by (simp add: initial_clauses_def)
  have s: "c_sort cl = map params (entries ''sort'' (query qb))"
    using collect_all_sort [OF cl] by (simp add: initial_clauses_def)
  have rw: "c_rawWhere cl = (if entries ''rawWhere'' (query qb) = [] then None
                             else Some (last (entries ''rawWhere'' (query qb))))"
    using collect_all_rawWhere [OF cl] by (simp add: initial_clauses_def)
  have f: "c_from cl = from_target qb"
    using collect_all_from [OF cl] by (simp add: initial_clauses_def from_target_def)
  have l: "c_limit cl = (if entries ''limit'' (query qb) = [] then JNull
                         else JNum (parseInt (params (last (entries ''limit'' (query qb))))))"
    using collect_all_limit [OF cl] by (simp add: initial_clauses_def)
  have k: "c_skip cl = (if entries ''skip'' (query qb) = [] then JNull
                         else JNum (parseInt (params (last (entries ''skip'' (query qb))))))"
    using collect_all_skip [OF cl] by (simp add: initial_clauses_def)
  from rd obtain sel where sel: "select_clause (c_select cl) (c_from cl) = Inr (''SELECT '' @ sel)"
    by (auto simp: render_def split: sum.splits dest: select_clause_shape)
  obtain whr vs2 where whr:
    "if comparisons (query qb) \<noteq> []
     then where_section (c_where cl) (pvalues qb) = Inr (''WHERE '' @ join '' AND '' whr, vs2)
          \<and> length whr = length (comparisons (query qb))
     else vs2 = pvalues qb \<and> whr = []"
  proof (cases "comparisons (query qb) = []")
    case True
    then show ?thesis using that [of "[]" "pvalues qb"] by simp
  next
    case False
    with rd sel w obtain ws vs where "where_section (c_where cl) (pvalues qb) = Inr (ws, vs)"
      by (auto simp: render_def split: sum.splits if_splits)
    with False w show ?thesis using that
      by (metis where_section_shape)
  qed
  obtain ord vs4 where ord:
    "if entries ''sort'' (query qb) \<noteq> []
     then sort_section (c_sort cl) vs2 = Inr (''ORDER BY '' @ ord, vs4)
     else vs4 = vs2"
  proof (cases "entries ''sort'' (query qb) = []")
    case True
    then show ?thesis using that [of "[]" vs2] by simp
  next
    case False
    with rd sel w s whr obtain ss vs where "sort_section (c_sort cl) vs2 = Inr (ss, vs)"
      by (auto simp: render_def Let_def split: sum.splits if_splits prod.splits)
    with False show ?thesis using that
      by (metis sort_section_shape)
  qed
  have seg_from: "(if truthy (bucket qb) then [from_clause (c_from cl)] else []) =
      (if truthy (bucket qb) then [''FROM `'' @ to_string (from_target qb) @ ''`''] else [])"
    by (simp add: from_clause_def f)
  have seg_raw: "(case c_rawWhere cl of None \<Rightarrow> []
                  | Some rw \<Rightarrow> [join_values '' '' [JStr ''WHERE'', params rw]]) =
      (if entries ''rawWhere'' (query qb) \<noteq> []
       then [''WHERE '' @ elem_string (params (last (entries ''rawWhere'' (query qb))))] else [])"
    by (simp add: rw join_values_def elem_string_def)
  have seg_limit: "(if \<not> is_nullish (c_limit cl) then [limit_clause (c_limit cl)] else []) =
      (if entries ''limit'' (query qb) \<noteq> []
       then [''LIMIT '' @ num_to_string (parseInt (params (last (entries ''limit'' (query qb)))))]
       else [])"
    by (simp add: l limit_clause_def)
  have seg_skip: "(if \<not> is_nullish (c_skip cl) then [skip_clause (c_skip cl)] else []) =
      (if entries ''skip'' (query qb) \<noteq> []
       then [''OFFSET '' @ num_to_string (parseInt (params (last (entries ''skip'' (query qb)))))]
       else [])"
    by (simp add: k skip_clause_def)
  have "rquery r = join '' ''
       ([''SELECT '' @ sel]
        @ (if truthy (bucket qb) then [from_clause (c_from cl)] else [])
        @ (if comparisons (query qb) \<noteq> [] then [''WHERE '' @ join '' AND '' whr] else [])
        @ (case c_rawWhere cl of None \<Rightarrow> []
           | Some rw \<Rightarrow> [join_values '' '' [JStr ''WHERE'', params rw]])
        @ (if entries ''sort'' (query qb) \<noteq> [] then [''ORDER BY '' @ ord] else [])
        @ (if \<not> is_nullish (c_limit cl) then [limit_clause (c_limit cl)] else [])
        @ (if \<not> is_nullish (c_skip cl) then [skip_clause (c_skip cl)] else []))"
  proof (cases "comparisons (query qb) = []"; cases "entries ''sort'' (query qb) = []")
    assume a: "comparisons (query qb) = []" "entries ''sort'' (query qb) = []"
    show ?thesis
      using rd sel whr ord a
      by (auto simp add: a render_def w s simp del: join.simps split del: if_split)
  next
    assume a: "comparisons (query qb) = []" "entries ''sort'' (query qb) \<noteq> []"
    show ?thesis
      using rd sel whr ord a
      by (auto simp add: a render_def w s simp del: join.simps split del: if_split)
  next
    assume a: "comparisons (query qb) \<noteq> []" "entries ''sort'' (query qb) = []"
    show ?thesis
      using rd sel whr ord a
      by (auto simp add: a render_def w s simp del: join.simps split del: if_split)
  next
    assume a: "comparisons (query qb) \<noteq> []" "entries ''sort'' (query qb) \<noteq> []"
    show ?thesis
      using rd sel whr ord a
      by (auto simp add: a render_def w s simp del: join.simps split del: if_split)
  qed
  then have "rquery r = join '' ''
       ([''SELECT '' @ sel]
        @ (if truthy (bucket qb) then [''FROM `'' @ to_string (from_target qb) @ ''`''] else [])
        @ (if comparisons (query qb) \<noteq> [] then [''WHERE '' @ join '' AND '' whr] else [])
        @ (if entries ''rawWhere'' (query qb) \<noteq> []
           then [''WHERE '' @ elem_string (params (last (entries ''rawWhere'' (query qb))))] else [])
        @ (if entries ''sort'' (query qb) \<noteq> [] then [''ORDER BY '' @ ord] else [])
        @ (if entries ''limit'' (query qb) \<noteq> []
           then [''LIMIT '' @ num_to_string (parseInt (params (last (entries ''limit'' (query qb)))))]
           else [])
        @ (if entries ''skip'' (query qb) \<noteq> []
           then [''OFFSET '' @ num_to_string (parseInt (params (last (entries ''skip'' (query qb)))))]
           else []))"
    by (simp only: seg_from seg_raw seg_limit seg_skip)
  moreover have "length whr = length (comparisons (query qb))"
    using whr by (auto split: if_splits)
  ultimately show ?thesis by blast
qed



text \<open>
  Claim C5. The query of a successful \<^verbatim>\<open>build\<close> is its sections joined by one space, in
  this order: the projection; \<^verbatim>\<open>FROM\<close>, present exactly when the bucket of the constructor
  is truthy; \<^verbatim>\<open>WHERE\<close> with one statement per recorded comparison, joined by \<^verbatim>\<open>AND\<close>,
  present exactly when a comparison was recorded; a second \<^verbatim>\<open>WHERE\<close> with the text of
  the last \<^verbatim>\<open>rawWhere\<close>, present exactly when \<^verbatim>\<open>rawWhere\<close> was called; \<^verbatim>\<open>ORDER BY\<close>,
  present exactly when \<^verbatim>\<open>sort\<close> was called; \<^verbatim>\<open>LIMIT\<close> and \<^verbatim>\<open>OFFSET\<close> with the integer
  read from the last \<^verbatim>\<open>limit\<close> and \<^verbatim>\<open>skip\<close>. The two \<^verbatim>\<open>WHERE\<close> sections are
  independent of each other.
\<close>

theorem build_section_order:
  assumes "build qb = Inr (r, qb')"
  shows "\<exists>sel whr ord.
     rquery r = join '' ''
       ([''SELECT '' @ sel]
        @ (if truthy (bucket qb) then [''FROM `'' @ to_string (from_target qb) @ ''`''] else [])
        @ (if comparisons (query qb) \<noteq> [] then [''WHERE '' @ join '' AND '' whr] else [])
        @ (if entries ''rawWhere'' (query qb) \<noteq> []
           then [''WHERE '' @ elem_string (params (last (entries ''rawWhere'' (query qb))))] else [])
        @ (if entries ''sort'' (query qb) \<noteq> [] then [''ORDER BY '' @ ord] else [])
        @ (if entries ''limit'' (query qb) \<noteq> []
           then [''LIMIT '' @ num_to_string (parseInt (params (last (entries ''limit'' (query qb)))))]
           else [])
        @ (if entries ''skip'' (query qb) \<noteq> []
           then [''OFFSET '' @ num_to_string (parseInt (params (last (entries ''skip'' (query qb)))))]
           else []))
     \<and> length whr = length (comparisons (query qb))"
  using build_sections [OF assms] .

theorem build_section_order_witness:
  "build (rawWhere (JStr ''b = 2'')
            (where_clause (JStr ''a'') (JStr ''eq'') (JNum (Fin 1 0)) (new_QueryBuilder JNull))) =
     Inr (\<lparr>rquery = ''SELECT * WHERE a = $1 WHERE b = 2'', rvalues = [JNum (Fin 1 0)]\<rparr>,
          \<lparr>bucket = JNull,
           query = [\<lparr>ctype = JStr ''eq'',
                     params = JObj [(''field'', JStr ''a''), (''value'', JNum (Fin 1 0))]\<rparr>,
                    \<lparr>ctype = JStr ''rawWhere'', params = JStr ''b = 2''\<rparr>],
           pvalues = [JNum (Fin 1 0)]\<rparr>)
   \<and> (\<exists>sel whr ord.
         ''SELECT * WHERE a = $1 WHERE b = 2'' =
           join '' '' ([''SELECT '' @ sel] @ [''WHERE '' @ join '' AND '' whr] @ [''WHERE b = 2''])
         \<and> length whr = 1)"
proof -
  let ?qb = "rawWhere (JStr ''b = 2'')
               (where_clause (JStr ''a'') (JStr ''eq'') (JNum (Fin 1 0)) (new_QueryBuilder JNull))"
  have b: "build ?qb =
     Inr (\<lparr>rquery = ''SELECT * WHERE a = $1 WHERE b = 2'', rvalues = [JNum (Fin 1 0)]\<rparr>,
          \<lparr>bucket = JNull,
           query = [\<lparr>ctype = JStr ''eq'',
                     params = JObj [(''field'', JStr ''a''), (''value'', JNum (Fin 1 0))]\<rparr>,
                    \<lparr>ctype = JStr ''rawWhere'', params = JStr ''b = 2''\<rparr>],
           pvalues = [JNum (Fin 1 0)]\<rparr>)"
    by code_simp
  have q: "query ?qb = [\<lparr>ctype = JStr ''eq'',
                     params = JObj [(''field'', JStr ''a''), (''value'', JNum (Fin 1 0))]\<rparr>,
                    \<lparr>ctype = JStr ''rawWhere'', params = JStr ''b = 2''\<rparr>]"
    and bk: "bucket ?qb = JNull"
    by (simp_all add: rawWhere_def where_clause_def add_def new_QueryBuilder_def)
  show ?thesis
    using build_section_order [OF b] b
    by (simp add: q bk entries_def comparisons_def where_types_def elem_string_def
          del: join.simps)
qed

subsection \<open>Raw clauses\<close>

lemma result_eq:
  "result qb = (case collect_all (query qb) (initial_clauses qb) of
                  Inl e \<Rightarrow> Inl e | Inr cl \<Rightarrow> render (bucket qb) (pvalues qb) cl)"
  by (simp add: result_def build_def split: sum.splits)

lemma collect_rawWhere_update:
  "collect c (cl\<lparr>c_rawWhere := X\<rparr>) =
     (if ctype c = JStr ''rawWhere'' then collect c cl
      else (case collect c cl of Inl e \<Rightarrow> Inl e | Inr cl' \<Rightarrow> Inr (cl'\<lparr>c_rawWhere := X\<rparr>)))"
  by (auto simp: collect_def Let_def)

lemma collect_all_rawWhere_overwritten:
  "collect_all (cs @ [raw_entry t]) (cl\<lparr>c_rawWhere := X\<rparr>) = collect_all (cs @ [raw_entry t]) cl"
proof (induction cs arbitrary: cl X)
  case Nil
  show ?case by (simp add: collect_def raw_entry_def)
next
  case (Cons c cs)
  show ?case
  proof (cases "ctype c = JStr ''rawWhere''")
    case True
    then show ?thesis by (simp add: collect_rawWhere_update)
  next
    case False
    then show ?thesis
      using Cons.IH by (cases "collect c cl") (simp_all add: collect_rawWhere_update)
  qed
qed


lemma raw_section_shape:
  assumes "build qb = Inr (r, qb')"
    and "entries ''rawWhere'' (query qb) \<noteq> []"
    and "params (last (entries ''rawWhere'' (query qb))) = t"
  shows "\<exists>sel frm whr ord lim off.
     rquery r = join '' ''
       ([''SELECT '' @ sel] @ map (\<lambda>x. ''FROM `'' @ x @ ''`'') frm
        @ map (\<lambda>x. ''WHERE '' @ join '' AND '' x) whr
        @ [''WHERE '' @ elem_string t]
        @ map (\<lambda>x. ''ORDER BY '' @ x) ord @ map (\<lambda>x. ''LIMIT '' @ x) lim
        @ map (\<lambda>x. ''OFFSET '' @ x) off)
     \<and> length frm \<le> 1 \<and> length whr \<le> 1 \<and> length ord \<le> 1 \<and> length lim \<le> 1 \<and> length off \<le> 1"
proof -
  from build_sections [OF assms(1)] obtain sel whr ord where q:
    "rquery r = join '' ''
       ([''SELECT '' @ sel]
        @ (if truthy (bucket qb) then [''FROM `'' @ to_string (from_target qb) @ ''`''] else [])
        @ (if comparisons (query qb) \<noteq> [] then [''WHERE '' @ join '' AND '' whr] else [])
        @ (if entries ''rawWhere'' (query qb) \<noteq> []
           then [''WHERE '' @ elem_string (params (last (entries ''rawWhere'' (query qb))))] else [])
        @ (if entries ''sort'' (query qb) \<noteq> [] then [''ORDER BY '' @ ord] else [])
        @ (if entries ''limit'' (query qb) \<noteq> []
           then [''LIMIT '' @ num_to_string (parseInt (params (last (entries ''limit'' (query qb)))))]
           else [])
        @ (if entries ''skip'' (query qb) \<noteq> []
           then [''OFFSET '' @ num_to_string (parseInt (params (last (entries ''skip'' (query qb)))))]
           else []))"
    by blast
  define frm where "frm = (if truthy (bucket qb) then [to_string (from_target qb)] else [])"
  define whr' where "whr' = (if comparisons (query qb) \<noteq> [] then [whr] else [])"
  define ord' where "ord' = (if entries ''sort'' (query qb) \<noteq> [] then [ord] else [])"
  define lim where "lim = (if entries ''limit'' (query qb) \<noteq> []
           then [num_to_string (parseInt (params (last (entries ''limit'' (query qb)))))] else [])"
  define off where "off = (if entries ''skip'' (query qb) \<noteq> []
           then [num_to_string (parseInt (params (last (entries ''skip'' (query qb)))))] else [])"
  have "rquery r = join '' ''
       ([''SELECT '' @ sel] @ map (\<lambda>x. ''FROM `'' @ x @ ''`'') frm
        @ map (\<lambda>x. ''WHERE '' @ join '' AND '' x) whr'
        @ [''WHERE '' @ elem_string t]
        @ map (\<lambda>x. ''ORDER BY '' @ x) ord' @ map (\<lambda>x. ''LIMIT '' @ x) lim
        @ map (\<lambda>x. ''OFFSET '' @ x) off)"
    unfolding q frm_def whr'_def ord'_def lim_def off_def
    using assms(2,3) by (simp del: join.simps)
  moreover have "length frm \<le> 1 \<and> length whr' \<le> 1 \<and> length ord' \<le> 1 \<and> length lim \<le> 1 \<and> length off \<le> 1"
    by (simp add: frm_def whr'_def ord'_def lim_def off_def)
  ultimately show ?thesis by blast
qed

lemma entries_append: "entries t (xs @ ys) = entries t xs @ entries t ys"
  by (simp add: entries_def)

lemma entries_raw_entry: "entries ''rawWhere'' [raw_entry t] = [raw_entry t]"
  by (simp add: entries_def raw_entry_def)

text \<open>
  Claim C10. A \<^verbatim>\<open>rawWhere\<close> that is followed by another \<^verbatim>\<open>rawWhere\<close> has no effect on
  what \<^verbatim>\<open>build\<close> returns, whatever was called before, in between and afterwards: the
  result is that of the builder without the earlier call. When no further \<^verbatim>\<open>rawWhere\<close>
  follows, a successful \<^verbatim>\<open>build\<close> renders one raw section, with the last text, between
  the comparisons and \<^verbatim>\<open>ORDER BY\<close>.
\<close>

theorem rawWhere_last_wins:
  "result (qb\<lparr>query := pre @ [raw_entry t1] @ mid @ [raw_entry t2] @ post\<rparr>) =
   result (qb\<lparr>query := pre @ mid @ [raw_entry t2] @ post\<rparr>)
   \<and> (entries ''rawWhere'' post = [] \<longrightarrow>
      (\<forall>r. result (qb\<lparr>query := pre @ [raw_entry t1] @ mid @ [raw_entry t2] @ post\<rparr>) = Inr r \<longrightarrow>
        (\<exists>sel frm whr ord lim off.
           rquery r = join '' ''
             ([''SELECT '' @ sel] @ map (\<lambda>x. ''FROM `'' @ x @ ''`'') frm
              @ map (\<lambda>x. ''WHERE '' @ join '' AND '' x) whr
              @ [''WHERE '' @ elem_string t2]
              @ map (\<lambda>x. ''ORDER BY '' @ x) ord @ map (\<lambda>x. ''LIMIT '' @ x) lim
              @ map (\<lambda>x. ''OFFSET '' @ x) off)
           \<and> length frm \<le> 1 \<and> length whr \<le> 1 \<and> length ord \<le> 1 \<and> length lim \<le> 1
           \<and> length off \<le> 1)))"
proof (intro conjI impI allI)
  have step: "collect_all ([raw_entry t1] @ mid @ [raw_entry t2]) cl = collect_all (mid @ [raw_entry t2]) cl" for cl
    using collect_all_rawWhere_overwritten [where cs = mid and t = t2 and cl = cl and X = "Some (raw_entry t1)"]
    by (simp add: collect_def raw_entry_def)
  have split3: "collect_all (pre @ xs @ post) cl =
      (case collect_all pre cl of Inl e \<Rightarrow> Inl e | Inr c1 \<Rightarrow>
       case collect_all xs c1 of Inl e \<Rightarrow> Inl e | Inr c2 \<Rightarrow> collect_all post c2)" for xs cl
    by (simp add: collect_all_append split: sum.splits)
  have "collect_all (pre @ ([raw_entry t1] @ mid @ [raw_entry t2]) @ post) cl =
        collect_all (pre @ (mid @ [raw_entry t2]) @ post) cl" for cl
    by (simp only: split3 step)
  then show "result (qb\<lparr>query := pre @ [raw_entry t1] @ mid @ [raw_entry t2] @ post\<rparr>) =
   result (qb\<lparr>query := pre @ mid @ [raw_entry t2] @ post\<rparr>)"
    by (simp add: result_eq initial_clauses_def split: sum.splits)
next
  fix r
  let ?qb = "qb\<lparr>query := pre @ [raw_entry t1] @ mid @ [raw_entry t2] @ post\<rparr>"
  assume post: "entries ''rawWhere'' post = []" and r: "result ?qb = Inr r"
  from r obtain qb' where b: "build ?qb = Inr (r, qb')"
    by (auto simp: result_def split: sum.splits)
  have e: "entries ''rawWhere'' (query ?qb) =
      entries ''rawWhere'' pre @ [raw_entry t1] @ entries ''rawWhere'' mid @ [raw_entry t2]"
    using post by (simp add: entries_def raw_entry_def)
  have "entries ''rawWhere'' (query ?qb) \<noteq> []"
    and "params (last (entries ''rawWhere'' (query ?qb))) = t2"
    unfolding e by (simp_all add: raw_entry_def)
  from raw_section_shape [OF b this]
  show "\<exists>sel frm whr ord lim off.
           rquery r = join '' ''
             ([''SELECT '' @ sel] @ map (\<lambda>x. ''FROM `'' @ x @ ''`'') frm
              @ map (\<lambda>x. ''WHERE '' @ join '' AND '' x) whr
              @ [''WHERE '' @ elem_string t2]
              @ map (\<lambda>x. ''ORDER BY '' @ x) ord @ map (\<lambda>x. ''LIMIT '' @ x) lim
              @ map (\<lambda>x. ''OFFSET '' @ x) off)
           \<and> length frm \<le> 1 \<and> length whr \<le> 1 \<and> length ord \<le> 1 \<and> length lim \<le> 1
           \<and> length off \<le> 1" .
qed

theorem rawWhere_last_wins_witness:
  "result (new_QueryBuilder JNull\<lparr>query := [] @ [raw_entry (JStr ''x = 1'')] @ [] @ [raw_entry (JStr ''y = 2'')] @ []\<rparr>) =
     Inr \<lparr>rquery = ''SELECT * WHERE y = 2'', rvalues = []\<rparr>
   \<and> result (new_QueryBuilder JNull\<lparr>query := [] @ [] @ [raw_entry (JStr ''y = 2'')] @ []\<rparr>) =
     Inr \<lparr>rquery = ''SELECT * WHERE y = 2'', rvalues = []\<rparr>
   \<and> (\<exists>sel frm whr ord lim off.
           ''SELECT * WHERE y = 2'' = join '' ''
             ([''SELECT '' @ sel] @ map (\<lambda>x. ''FROM `'' @ x @ ''`'') frm
              @ map (\<lambda>x. ''WHERE '' @ join '' AND '' x) whr
              @ [''WHERE y = 2'']
              @ map (\<lambda>x. ''ORDER BY '' @ x) ord @ map (\<lambda>x. ''LIMIT '' @ x) lim
              @ map (\<lambda>x. ''OFFSET '' @ x) off)
           \<and> length frm \<le> 1 \<and> length whr \<le> 1 \<and> length ord \<le> 1 \<and> length lim \<le> 1
           \<and> length off \<le> 1)"
proof -
  have a: "result (new_QueryBuilder JNull\<lparr>query := [] @ [raw_entry (JStr ''x = 1'')] @ [] @ [raw_entry (JStr ''y = 2'')] @ []\<rparr>) =
     Inr \<lparr>rquery = ''SELECT * WHERE y = 2'', rvalues = []\<rparr>"
    by code_simp
  have b: "entries ''rawWhere'' [] = []"
    by (simp add: entries_def)
  show ?thesis
    using rawWhere_last_wins [where qb = "new_QueryBuilder JNull" and pre = "[]" and ?t1.0 = "JStr ''x = 1''"
        and mid = "[]" and ?t2.0 = "JStr ''y = 2''" and post = "[]"]
    unfolding a b by (simp add: elem_string_def del: join.simps)
qed

subsection \<open>Building twice\<close>

text \<open>
  Rendering binds the non-null values of the comparisons, then the sort fields; whether
  it succeeds does not depend on the parameters the instance already holds.
\<close>

lemma render_alt:
  "render b vs cl =
     (case select_clause (c_select cl) (c_from cl) of Inl e \<Rightarrow> Inl e | Inr sel \<Rightarrow>
      case where_part cl vs of Inl e \<Rightarrow> Inl e | Inr (ws, vs2) \<Rightarrow>
      case sort_part cl vs2 of Inl e \<Rightarrow> Inl e | Inr (ss, vs4) \<Rightarrow>
      Inr \<lparr>rquery = join '' ''
             ([sel] @ (if truthy b then [from_clause (c_from cl)] else []) @ ws
              @ (case c_rawWhere cl of None \<Rightarrow> []
                 | Some rw \<Rightarrow> [join_values '' '' [JStr ''WHERE'', params rw]])
              @ ss
              @ (if \<not> is_nullish (c_limit cl) then [limit_clause (c_limit cl)] else [])
              @ (if \<not> is_nullish (c_skip cl) then [skip_clause (c_skip cl)] else [])),
           rvalues = vs4\<rparr>)"
  by (simp add: render_def where_part_def sort_part_def del: join.simps split: sum.splits prod.splits)

lemma where_statement_ok:
  "where_statement t f v = Inr st \<Longrightarrow> \<exists>st'. where_statement t f v' = Inr st'"
  by (auto simp: where_statement_def split: if_splits)

lemma where_statements_values:
  "where_statements cs vs = Inr (sts, vs') \<Longrightarrow> vs' = vs @ where_values cs"
proof (induction cs arbitrary: vs sts)
  case Nil
  then show ?case by (simp add: where_values_def)
next
  case (Cons c cs)
  from Cons.prems obtain f v where f: "get_prop (params c) ''field'' = Inr f"
    and v: "get_prop (params c) ''value'' = Inr v"
    by (auto split: sum.splits)
  show ?case
  proof (cases "is_nullish v")
    case True
    with Cons.prems f v obtain sts' where "where_statements cs vs = Inr (sts', vs')"
      by (auto split: sum.splits)
    from Cons.IH [OF this] show ?thesis using v True by (simp add: where_values_def)
  next
    case False
    with Cons.prems f v obtain sts' where "where_statements cs (vs @ [v]) = Inr (sts', vs')"
      by (auto simp: parameterValue_def split: sum.splits)
    from Cons.IH [OF this] show ?thesis using v False by (simp add: where_values_def)
  qed
qed

lemma where_statements_again:
  "where_statements cs vs = Inr (sts, vs') \<Longrightarrow> \<exists>sts2 ws'. where_statements cs ws = Inr (sts2, ws')"
proof (induction cs arbitrary: vs ws sts vs')
  case Nil
  then show ?case by simp
next
  case (Cons c cs)
  from Cons.prems obtain f v where f: "get_prop (params c) ''field'' = Inr f"
    and v: "get_prop (params c) ''value'' = Inr v"
    by (auto split: sum.splits)
  define p where "p = (if is_nullish v then (''NULL'', vs) else parameterValue v vs)"
  define p2 where "p2 = (if is_nullish v then (''NULL'', ws) else parameterValue v ws)"
  from Cons.prems f v obtain st sts' where st: "where_statement (ctype c) f (fst p) = Inr st"
    and rest: "where_statements cs (snd p) = Inr (sts', vs')"
    by (auto simp: p_def split: sum.splits prod.splits if_splits)
  from where_statement_ok [OF st] obtain st2 where st2: "where_statement (ctype c) f (fst p2) = Inr st2"
    by blast
  from Cons.IH [OF rest] obtain sts2 ws' where "where_statements cs (snd p2) = Inr (sts2, ws')"
    by blast
  with st2 f v show ?case
    by (auto simp: p2_def split: prod.splits)
qed

lemma sort_fields_snd: "snd (sort_fields fs ord vs) = vs @ fs"
  by (induction fs arbitrary: vs) (simp_all add: parameterValue_def split_beta)

lemma sort_fields_values: "sort_fields fs ord vs = (sts, vs') \<Longrightarrow> vs' = vs @ fs"
  using sort_fields_snd [of fs ord vs] by simp

lemma sort_statements_values:
  "sort_statements gs vs = Inr (sts, vs') \<Longrightarrow> vs' = vs @ sort_values gs"
proof (induction gs arbitrary: vs sts)
  case Nil
  then show ?case by (simp add: sort_values_def)
next
  case (Cons g gs)
  from Cons.prems obtain fs ord parts vs1 sts' where fs: "get_prop g ''fields'' = Inr (JArr fs)"
    and sf: "sort_fields fs ord vs = (parts, vs1)"
    and rest: "sort_statements gs vs1 = Inr (sts', vs')"
    by (auto split: sum.splits jsval.splits prod.splits)
  from Cons.IH [OF rest] sort_fields_values [OF sf] fs show ?case
    by (simp add: sort_values_def)
qed

lemma sort_statements_again:
  "sort_statements gs vs = Inr (sts, vs') \<Longrightarrow> \<exists>sts2 ws'. sort_statements gs ws = Inr (sts2, ws')"
proof (induction gs arbitrary: vs ws sts vs')
  case Nil
  then show ?case by simp
next
  case (Cons g gs)
  from Cons.prems obtain fs ord parts vs1 sts' where fs: "get_prop g ''fields'' = Inr (JArr fs)"
    and ord: "get_prop g ''order'' = Inr ord"
    and sf: "sort_fields fs ord vs = (parts, vs1)"
    and rest: "sort_statements gs vs1 = Inr (sts', vs')"
    by (auto split: sum.splits jsval.splits prod.splits)
  obtain parts2 ws1 where sf2: "sort_fields fs ord ws = (parts2, ws1)"
    by (cases "sort_fields fs ord ws")
  from Cons.IH [OF rest] obtain sts2 ws' where "sort_statements gs ws1 = Inr (sts2, ws')"
    by blast
  with fs ord sf2 show ?case by auto
qed

lemma where_part_values:
  assumes "where_part cl vs = Inr (ws, vs')"
  shows "vs' = vs @ where_values (c_where cl)"
  using assms
  by (auto simp: where_part_def where_section_def where_values_def
      split: if_splits sum.splits dest: where_statements_values)

lemma where_part_again:
  assumes "where_part cl vs = Inr (ws, vs')"
  shows "\<exists>ws2 us'. where_part cl us = Inr (ws2, us')"
proof (cases "c_where cl = []")
  case True
  then show ?thesis by (simp add: where_part_def)
next
  case False
  with assms obtain sts where "where_statements (c_where cl) vs = Inr (sts, vs')"
    by (auto simp: where_part_def where_section_def split: sum.splits)
  from where_statements_again [OF this, of us] show ?thesis
    using False by (auto simp: where_part_def where_section_def)
qed

lemma sort_part_values:
  assumes "sort_part cl vs = Inr (ws, vs')"
  shows "vs' = vs @ sort_values (c_sort cl)"
  using assms
  by (auto simp: sort_part_def sort_section_def sort_values_def
      split: if_splits sum.splits dest: sort_statements_values)

lemma sort_part_again:
  assumes "sort_part cl vs = Inr (ws, vs')"
  shows "\<exists>ws2 us'. sort_part cl us = Inr (ws2, us')"
proof (cases "c_sort cl = []")
  case True
  then show ?thesis by (simp add: sort_part_def)
next
  case False
  with assms obtain sts where "sort_statements (c_sort cl) vs = Inr (sts, vs')"
    by (auto simp: sort_part_def sort_section_def split: sum.splits)
  from sort_statements_again [OF this, of us] show ?thesis
    using False by (auto simp: sort_part_def sort_section_def)
qed

lemma render_values:
  assumes "render b vs cl = Inr r"
  shows "rvalues r = vs @ where_values (c_where cl) @ sort_values (c_sort cl)"
proof -
  from assms obtain sel ws vs2 ss vs4 where "where_part cl vs = Inr (ws, vs2)"
    and "sort_part cl vs2 = Inr (ss, vs4)" and "rvalues r = vs4"
    by (auto simp: render_alt split: sum.splits)
  then show ?thesis
    using where_part_values sort_part_values by fastforce
qed

lemma render_again:
  assumes "render b vs cl = Inr r"
  shows "\<exists>r2. render b us cl = Inr r2"
proof -
  from assms obtain sel ws vs2 ss vs4 where sel: "select_clause (c_select cl) (c_from cl) = Inr sel"
    and w: "where_part cl vs = Inr (ws, vs2)"
    and s: "sort_part cl vs2 = Inr (ss, vs4)"
    by (auto simp: render_alt split: sum.splits)
  from where_part_again [OF w] obtain ws2 us2 where w2: "where_part cl us = Inr (ws2, us2)"
    by blast
  from sort_part_again [OF s] obtain ss2 us4 where s2: "sort_part cl us2 = Inr (ss2, us4)"
    by blast
  show ?thesis
    by (simp add: render_alt sel w2 s2 del: join.simps)
qed

lemma build_values:
  assumes "build qb = Inr (r, qb')"
  shows "rvalues r = pvalues qb @ bound_values (query qb)" and "qb' = qb\<lparr>pvalues := rvalues r\<rparr>"
proof -
  from assms obtain cl where cl: "collect_all (query qb) (initial_clauses qb) = Inr cl"
    and rd: "render (bucket qb) (pvalues qb) cl = Inr r"
    and qb': "qb' = qb\<lparr>pvalues := rvalues r\<rparr>"
    by (auto simp: build_def split: sum.splits)
  have "c_where cl = comparisons (query qb)"
    using collect_all_where [OF cl] by (simp add: initial_clauses_def)
  moreover have "c_sort cl = map params (entries ''sort'' (query qb))"
    using collect_all_sort [OF cl] by (simp add: initial_clauses_def)
  ultimately show "rvalues r = pvalues qb @ bound_values (query qb)"
    using render_values [OF rd] by (simp add: bound_values_def)
  show "qb' = qb\<lparr>pvalues := rvalues r\<rparr>" by fact
qed

lemma build_again:
  assumes "build qb = Inr (r, qb')"
  shows "\<exists>r2 qb2. build (qb\<lparr>pvalues := us\<rparr>) = Inr (r2, qb2)"
proof -
  from assms obtain cl where cl: "collect_all (query qb) (initial_clauses qb) = Inr cl"
    and rd: "render (bucket qb) (pvalues qb) cl = Inr r"
    by (auto simp: build_def split: sum.splits)
  from render_again [OF rd] obtain r2 where "render (bucket qb) us cl = Inr r2"
    by blast
  with cl show ?thesis
    by (simp add: build_def initial_clauses_def)
qed

text \<open>
  Claim C2, as stated, fails: a builder with one comparison renders \<^verbatim>\<open>$1\<close> at its first
  \<^verbatim>\<open>build\<close> and \<^verbatim>\<open>$2\<close> at its second, where the value is bound a second time.
\<close>

theorem build_twice_counterexample:
  "build_twice (where_clause (JStr ''a'') (JStr ''eq'') (JNum (Fin 1 0)) (new_QueryBuilder JUndefined)) =
     Inr (\<lparr>rquery = ''SELECT * WHERE a = $1'', rvalues = [JNum (Fin 1 0)]\<rparr>,
          \<lparr>rquery = ''SELECT * WHERE a = $2'', rvalues = [JNum (Fin 1 0), JNum (Fin 1 0)]\<rparr>)"
  by code_simp

text \<open>
  Claim C2, amended. When \<^verbatim>\<open>build\<close> has succeeded, a second \<^verbatim>\<open>build\<close> with no call in
  between succeeds too. The first returns the parameters the instance held followed by
  those it bound; the second returns the values of the first followed by the same bound
  parameters once more. The two results are identical exactly when \<^verbatim>\<open>build\<close> binds no
  parameter: no comparison with a value that is not \<^verbatim>\<open>null\<close> and no sort field.
\<close>

theorem second_build:
  assumes "build qb = Inr (r, qb')"
  shows "\<exists>r2 qb2. build qb' = Inr (r2, qb2)
           \<and> rvalues r = pvalues qb @ bound_values (query qb)
           \<and> rvalues r2 = rvalues r @ bound_values (query qb)
           \<and> (r2 = r) = (bound_values (query qb) = [])"
proof -
  note v = build_values [OF assms]
  from build_again [OF assms, of "rvalues r"] v(2) obtain r2 qb2 where
    b2: "build qb' = Inr (r2, qb2)" by auto
  have q: "query qb' = query qb" and p: "pvalues qb' = rvalues r"
    using v(2) by simp_all
  have v2: "rvalues r2 = rvalues r @ bound_values (query qb)"
    using build_values(1) [OF b2] by (simp add: q p)
  have "(r2 = r) = (bound_values (query qb) = [])"
  proof
    assume "r2 = r"
    with v2 show "bound_values (query qb) = []" by simp
  next
    assume "bound_values (query qb) = []"
    with v have "qb' = qb" by simp
    with assms b2 show "r2 = r" by simp
  qed
  with b2 v(1) v2 show ?thesis by blast
qed

theorem second_build_witness:
  "\<exists>r2 qb2.
     build \<lparr>bucket = JNull,
            query = [\<lparr>ctype = JStr ''rawWhere'', params = JStr ''one = $1''\<rparr>],
            pvalues = [JNum (Fin 1 0)]\<rparr> = Inr (r2, qb2)
     \<and> rvalues r2 = [JNum (Fin 1 0)]
     \<and> r2 = \<lparr>rquery = ''SELECT * WHERE one = $1'', rvalues = [JNum (Fin 1 0)]\<rparr>"
proof -
  let ?qb = "\<lparr>bucket = JNull,
            query = [\<lparr>ctype = JStr ''rawWhere'', params = JStr ''one = $1''\<rparr>],
            pvalues = [JNum (Fin 1 0)]\<rparr>"
  have b: "build ?qb = Inr (\<lparr>rquery = ''SELECT * WHERE one = $1'', rvalues = [JNum (Fin 1 0)]\<rparr>, ?qb)"
    by code_simp
  have e: "bound_values [\<lparr>ctype = JStr ''rawWhere'', params = JStr ''one = $1''\<rparr>] = []"
    by code_simp
  show ?thesis
    using second_build [OF b] by (auto simp: e)
qed

subsection \<open>Comparisons at the root of a query\<close>




subsection \<open>The default projection\<close>

text \<open>
  Claim C3, as stated, fails: on a builder bound to the bucket \<open>b\<close> the query is not
  rendered with a bare \<^verbatim>\<open>*\<close>.
\<close>

theorem interpret_one_counterexample:
  "interpret_result (JObj [(''one'', JNum (Fin 1 0))]) (new_QueryBuilder (JStr ''b'')) \<noteq>
     Inr \<lparr>rquery = ''SELECT * FROM `b` WHERE one = $1'', rvalues = [JNum (Fin 1 0)]\<rparr>"
  by code_simp

lemma one_directives:
  "QueryInterpreter (JObj [(''one'', JNum (Fin 1 0))]) = Inr [DAnd [Single (Leaf EQ ''one'' (JNum (Fin 1 0)))]]"
  by code_simp

text \<open>
  Claim C3, amended. \<^verbatim>\<open>interpret({one: 1})\<close> on a fresh builder bound to a bucket
  renders the default projection \<^verbatim>\<open>*\<close> qualified with the bucket, the \<^verbatim>\<open>FROM\<close> section
  of the bucket (unless its name is empty) and \<^verbatim>\<open>WHERE one = $1\<close>, with the values
  \<open>[1]\<close>; the projection is a bare \<^verbatim>\<open>*\<close> on a builder without bucket.
\<close>

theorem interpret_one_qualified:
  "interpret_result (JObj [(''one'', JNum (Fin 1 0))]) (new_QueryBuilder (JStr b)) =
     Inr \<lparr>rquery = ''SELECT `'' @ b @ ''`.*'' @ (if b = [] then [] else '' FROM `'' @ b @ ''`'')
                    @ '' WHERE one = $1'',
          rvalues = [JNum (Fin 1 0)]\<rparr>
   \<and> interpret_result (JObj [(''one'', JNum (Fin 1 0))]) (new_QueryBuilder JUndefined) =
     Inr \<lparr>rquery = ''SELECT * WHERE one = $1'', rvalues = [JNum (Fin 1 0)]\<rparr>"
  by (simp add: interpret_result_def interpret_query_def one_directives interpret_directives_def
      buildWhere_def leaf_toString_def rawWhere_def build_defs digits_of_Suc0)

subsection \<open>Placeholders of a text\<close>

lemma placeholders_dollar_free: "dollar_free a \<Longrightarrow> placeholders (a @ b) = placeholders b"
  by (induction a) (auto simp: dollar_free_def)

lemma is_digit_digit_char: "d < 10 \<Longrightarrow> is_digit (digit_char d)"
  by (simp add: is_digit_def digit_char_def)

lemma radix_val_digit_char: "d < 10 \<Longrightarrow> radix_val 10 (digit_char d) = Some d"
  by (simp add: radix_val_def hex_val_def digit_char_def)

lemma not_digit_dollar: "\<not> is_digit (CHR ''$'')"
  by (simp add: is_digit_def)

lemma digit_char_not_dollar: "d < 10 \<Longrightarrow> digit_char d \<noteq> CHR ''$''"
  using is_digit_digit_char not_digit_dollar by metis

lemma digits_of_all_digits: "list_all is_digit (digits_of n)"
proof (induction n rule: digits_of.induct)
  case (1 n)
  show ?case
    using 1 by (subst digits_of.simps) (simp add: is_digit_digit_char)
qed

lemma digits_of_not_empty: "digits_of n \<noteq> []"
  by (subst digits_of.simps) simp

lemma nat_of_digits_snoc:
  "nat_of_digits r (ds @ [c]) = nat_of_digits r ds * r + (case radix_val r c of None \<Rightarrow> 0 | Some d \<Rightarrow> d)"
  by (simp add: nat_of_digits_def)

lemma nat_of_digits_digits_of: "nat_of_digits 10 (digits_of n) = n"
proof (induction n rule: digits_of.induct)
  case (1 n)
  show ?case
  proof (cases "n < 10")
    case True
    then show ?thesis
      by (subst digits_of.simps) (simp add: nat_of_digits_def radix_val_digit_char)
  next
    case False
    then show ?thesis
      using 1 by (subst digits_of.simps) (simp add: nat_of_digits_snoc radix_val_digit_char)
  qed
qed

lemma dollar_free_digits_of: "dollar_free (digits_of n)"
proof (induction n rule: digits_of.induct)
  case (1 n)
  show ?case
    using 1 digit_char_not_dollar [of n] digit_char_not_dollar [of "n mod 10"]
    by (subst digits_of.simps) (auto simp: dollar_free_def)
qed

lemma takeWhile_digits:
  assumes "list_all is_digit ds" and "rest = [] \<or> \<not> is_digit (hd rest)"
  shows "takeWhile is_digit (ds @ rest) = ds" and "dropWhile is_digit (ds @ rest) = rest"
  using assms by (induction ds) (auto simp: neq_Nil_conv, (cases rest; simp)+)

lemma holds_placeholder: "holds (CHR ''$'' # digits_of n) [n]"
  unfolding holds_def
  by (auto simp: takeWhile_digits digits_of_all_digits digits_of_not_empty nat_of_digits_digits_of)

lemma holds_free: "dollar_free s \<Longrightarrow> holds s []"
  by (simp add: holds_def placeholders_dollar_free)

lemma holds_append_free: "dollar_free a \<Longrightarrow> holds b ns \<Longrightarrow> holds (a @ b) ns"
  by (simp add: holds_def placeholders_dollar_free)

lemma holds_append:
  assumes "holds a ns" and "holds b ms" and "b \<noteq> []" and "\<not> is_digit (hd b)"
  shows "holds (a @ b) (ns @ ms)"
  unfolding holds_def
proof (intro allI impI)
  fix rest
  assume r: "rest = [] \<or> \<not> is_digit (hd rest)"
  have "placeholders (a @ (b @ rest)) = ns @ placeholders (b @ rest)"
    using assms(1,3,4) by (simp add: holds_def)
  also have "placeholders (b @ rest) = ms @ placeholders rest"
    using assms(2) r unfolding holds_def by blast
  finally show "placeholders ((a @ b) @ rest) = (ns @ ms) @ placeholders rest"
    by simp
qed

lemma holds_Nil: "holds [] []"
  by (simp add: holds_def)

lemma holds_join:
  assumes "sep \<noteq> []" and "\<not> is_digit (hd sep)" and "dollar_free sep"
  shows "list_all2 holds xs nss \<Longrightarrow> holds (join sep xs) (concat nss)"
proof (induction xs arbitrary: nss rule: induct_list012)
  case 1
  then show ?case by (simp add: holds_Nil)
next
  case (2 x)
  then show ?case by (auto simp: list_all2_Cons1)
next
  case (3 x y zs)
  from 3(3) obtain ns nss' where nss: "nss = ns # nss'" and x: "holds x ns"
    and rest: "list_all2 holds (y # zs) nss'"
    by (auto simp: list_all2_Cons1)
  have "holds (join sep (y # zs)) (concat nss')"
    using 3(2) [OF rest] .
  then have "holds (sep @ join sep (y # zs)) (concat nss')"
    by (rule holds_append_free [OF assms(3)])
  with x have "holds (x @ (sep @ join sep (y # zs))) (ns @ concat nss')"
    using assms(1,2) by (intro holds_append) auto
  then show ?case by (simp add: nss)
qed

lemma holds_placeholders: "holds s ns \<Longrightarrow> placeholders s = ns"
  using holds_def [of s ns] by (auto dest: spec [of _ "[]"])

lemma takeWhile_append_stop:
  assumes "rest = [] \<or> \<not> P (hd rest)"
  shows "takeWhile P (cs @ rest) = takeWhile P cs" and "dropWhile P (cs @ rest) = dropWhile P cs @ rest"
  using assms by (induction cs) (auto, (cases rest; simp)+)

lemma placeholders_append:
  assumes "rest = [] \<or> \<not> is_digit (hd rest)"
  shows "placeholders (s @ rest) = placeholders s @ placeholders rest"
proof (induction s rule: placeholders.induct)
  case 1
  show ?case by simp
next
  case (2 c cs)
  show ?case
  proof (cases "c = CHR ''$'' \<and> takeWhile is_digit cs \<noteq> []")
    case True
    have "placeholders (dropWhile is_digit cs @ rest) = placeholders (dropWhile is_digit cs) @ placeholders rest"
      using 2(1) [OF True] .
    then show ?thesis
      using True assms by (simp add: takeWhile_append_stop)
  next
    case False
    have "placeholders (cs @ rest) = placeholders cs @ placeholders rest"
      using 2(2) [OF False] .
    then show ?thesis
      using False assms by (auto simp: takeWhile_append_stop)
  qed
qed

lemma holds_self: "holds s (placeholders s)"
  by (simp add: holds_def placeholders_append)

subsection \<open>Placeholders of the comparisons and of the sort groups\<close>

lemma dollar_free_append [simp]: "dollar_free (a @ b) = (dollar_free a \<and> dollar_free b)"
  by (auto simp: dollar_free_def)

lemma dollar_free_Nil [simp]: "dollar_free []"
  by (simp add: dollar_free_def)

lemma dollar_free_Cons [simp]: "dollar_free (c # cs) = (c \<noteq> CHR ''$'' \<and> dollar_free cs)"
  by (auto simp: dollar_free_def)

lemma dollar_free_join:
  "dollar_free sep \<Longrightarrow> \<forall>x\<in>set xs. dollar_free x \<Longrightarrow> dollar_free (join sep xs)"
  by (induction xs rule: induct_list012) simp_all

lemma dollar_free_subset: "dollar_free s \<Longrightarrow> set t \<subseteq> set s \<Longrightarrow> dollar_free t"
  by (auto simp: dollar_free_def)

lemma dollar_free_replicate: "c \<noteq> CHR ''$'' \<Longrightarrow> dollar_free (replicate n c)"
  by (simp add: dollar_free_def)

lemma dollar_free_pos_to_string: "dollar_free (pos_to_string m e)"
proof -
  have d: "dollar_free (digits_of k)" for k by (rule dollar_free_digits_of)
  have t: "dollar_free (take j (digits_of k))" "dollar_free (drop j (digits_of k))" for j k
    using d [of k] set_take_subset [of j "digits_of k"] set_drop_subset [of j "digits_of k"]
    by (auto simp: dollar_free_def)
  show ?thesis
    by (simp add: pos_to_string_def Let_def split_beta d t dollar_free_replicate)
qed

lemma dollar_free_num_to_string: "dollar_free (num_to_string n)"
  by (cases n) (simp_all add: dollar_free_pos_to_string)

lemma where_statement_shape:
  assumes "where_statement t f v = Inr st"
  shows "\<exists>sym. st = to_string f @ sym @ v \<and> dollar_free sym"
  using assms by (auto simp: where_statement_def split: if_splits)

lemma upt_Suc_append': "a \<le> b \<Longrightarrow> b \<le> c \<Longrightarrow> [a..<b] @ [b..<c] = [a..<c]"
  by (metis le_Suc_ex upt_add_eq_append)

lemma where_statements_holds:
  assumes "where_statements cs vs = Inr (sts, vs')"
    and "\<forall>c\<in>set cs. \<forall>f. get_prop (params c) ''field'' = Inr f \<longrightarrow> dollar_free (to_string f)"
  shows "\<exists>nss. list_all2 holds sts nss \<and> concat nss = [Suc (length vs)..<Suc (length vs')]"
  using assms
proof (induction cs arbitrary: vs sts)
  case Nil
  then show ?case by simp
next
  case (Cons c cs)
  from Cons.prems(1) obtain f v where f: "get_prop (params c) ''field'' = Inr f"
    and v: "get_prop (params c) ''value'' = Inr v"
    by (auto split: sum.splits)
  have ff: "dollar_free (to_string f)"
    using Cons.prems(2) f by simp
  define p where "p = (if is_nullish v then (''NULL'', vs) else parameterValue v vs)"
  from Cons.prems(1) f v obtain st sts' where st: "where_statement (ctype c) f (fst p) = Inr st"
    and rest: "where_statements cs (snd p) = Inr (sts', vs')"
    and sts: "sts = st # sts'"
    by (auto simp: p_def split: sum.splits prod.splits if_splits)
  from where_statement_shape [OF st] obtain sym where sym: "st = to_string f @ sym @ fst p"
    and fs: "dollar_free sym" by blast
  from Cons.IH [OF rest] Cons.prems(2) obtain nss where nss: "list_all2 holds sts' nss"
    and c: "concat nss = [Suc (length (snd p))..<Suc (length vs')]"
    by auto
  have le: "length (snd p) \<le> length vs'"
    using where_statements_values [OF rest] by simp
  show ?case
  proof (cases "is_nullish v")
    case True
    then have "holds st []"
      using ff fs by (simp add: sym p_def holds_free)
    with nss c True show ?thesis
      by (intro exI [of _ "[] # nss"]) (simp add: sts p_def)
  next
    case False
    then have "holds st [Suc (length vs)]"
      using ff fs holds_placeholder [of "Suc (length vs)"]
      by (auto simp: sym p_def parameterValue_def intro!: holds_append_free)
    moreover have "[Suc (length vs)] @ [Suc (Suc (length vs))..<Suc (length vs')] = [Suc (length vs)..<Suc (length vs')]"
      using le False by (simp add: p_def parameterValue_def upt_conv_Cons)
    ultimately show ?thesis
      using nss c False
      by (intro exI [of _ "[Suc (length vs)] # nss"]) (simp add: sts p_def parameterValue_def)
  qed
qed

lemma sort_fields_holds:
  assumes "dollar_free (elem_string ord)"
  shows "sort_fields fs ord vs = (parts, vs') \<Longrightarrow>
    \<exists>nss. list_all2 holds parts nss \<and> concat nss = [Suc (length vs)..<Suc (length vs')]"
proof (induction fs arbitrary: vs parts)
  case Nil
  then show ?case by simp
next
  case (Cons f fs)
  obtain parts' where rest: "sort_fields fs ord (vs @ [f]) = (parts', vs')"
    and parts: "parts = (CHR ''$'' # digits_of (Suc (length vs)) @ '' '' @ elem_string ord) # parts'"
    using Cons.prems by (auto simp: parameterValue_def split: prod.splits)
  from Cons.IH [OF rest] obtain nss where nss: "list_all2 holds parts' nss"
    and c: "concat nss = [Suc (Suc (length vs))..<Suc (length vs')]"
    by auto
  have le: "Suc (length vs) \<le> length vs'"
    using sort_fields_values [OF rest] by simp
  have "holds ((CHR ''$'' # digits_of (Suc (length vs))) @ ('' '' @ elem_string ord)) ([Suc (length vs)] @ [])"
    using assms by (intro holds_append holds_placeholder holds_free) (simp_all add: is_digit_def)
  then have "holds (CHR ''$'' # digits_of (Suc (length vs)) @ '' '' @ elem_string ord) [Suc (length vs)]"
    by simp
  moreover have "[Suc (length vs)] @ [Suc (Suc (length vs))..<Suc (length vs')] = [Suc (length vs)..<Suc (length vs')]"
    using le by (simp add: upt_conv_Cons)
  ultimately show ?case
    using nss c by (intro exI [of _ "[Suc (length vs)] # nss"]) (simp add: parts)
qed

lemma sort_statements_holds:
  assumes "sort_statements gs vs = Inr (sts, vs')"
    and "\<forall>g\<in>set gs. \<forall>ord. get_prop g ''order'' = Inr ord \<longrightarrow> dollar_free (elem_string ord)"
  shows "\<exists>nss. list_all2 holds sts nss \<and> concat nss = [Suc (length vs)..<Suc (length vs')]"
  using assms
proof (induction gs arbitrary: vs sts)
  case Nil
  then show ?case by simp
next
  case (Cons g gs)
  from Cons.prems(1) obtain fs ord parts vs1 sts' where fs: "get_prop g ''fields'' = Inr (JArr fs)"
    and ord: "get_prop g ''order'' = Inr ord"
    and sf: "sort_fields fs ord vs = (parts, vs1)"
    and rest: "sort_statements gs vs1 = Inr (sts', vs')"
    and sts: "sts = join '', '' parts # sts'"
    by (auto split: sum.splits jsval.splits prod.splits)
  have "dollar_free (elem_string ord)"
    using Cons.prems(2) ord by simp
  from sort_fields_holds [OF this sf] obtain ns where ns: "list_all2 holds parts ns"
    and c1: "concat ns = [Suc (length vs)..<Suc (length vs1)]" by blast
  have h: "holds (join '', '' parts) (concat ns)"
    using ns by (intro holds_join) (simp_all add: is_digit_def)
  from Cons.IH [OF rest] Cons.prems(2) obtain nss where nss: "list_all2 holds sts' nss"
    and c2: "concat nss = [Suc (length vs1)..<Suc (length vs')]"
    by auto
  have "length vs \<le> length vs1" "length vs1 \<le> length vs'"
    using sort_fields_values [OF sf] sort_statements_values [OF rest] by simp_all
  then have "concat ns @ concat nss = [Suc (length vs)..<Suc (length vs')]"
    unfolding c1 c2 by (intro upt_Suc_append') simp_all
  with h nss show ?case
    by (intro exI [of _ "concat ns # nss"]) (simp add: sts)
qed

subsection \<open>Placeholders of the rendered query\<close>

lemma holds_free_list:
  "\<forall>x\<in>set xs. dollar_free x \<Longrightarrow> list_all2 holds xs (replicate (length xs) [])"
  by (induction xs) (simp_all add: holds_free)

lemma concat_replicate_Nil [simp]: "concat (replicate n []) = []"
  by (induction n) simp_all

lemma select_clause_dollar_free:
  assumes "select_clause sel frm = Inr s"
    and "\<forall>xs. sel = JArr xs \<longrightarrow> (\<forall>x\<in>set xs. dollar_free (to_string x))"
    and "dollar_free (to_string frm)"
  shows "dollar_free s"
proof -
  define cs where "cs = (if is_nullish sel then JArr [JStr ''*''] else sel)"
  from assms(1) obtain xs where xs: "cs = JArr xs"
    by (auto simp: select_clause_def cs_def Let_def split: jsval.splits if_splits)
  have clean: "\<forall>x\<in>set xs. dollar_free (to_string x)"
    using assms(2) xs by (auto simp: cs_def split: if_splits)
  have "s = ''SELECT '' @ join_values '',''
               (if \<not> is_nullish frm
                then map (\<lambda>c. JStr (''`'' @ to_string frm @ ''`.'' @ to_string c)) xs else xs)"
    using assms(1) xs by (auto simp: select_clause_def cs_def Let_def split: if_splits)
  moreover have "dollar_free (join_values '','' xs)"
    unfolding join_values_def using clean
    by (intro dollar_free_join) (auto simp: elem_string_def)
  moreover have "dollar_free (join_values '','' (map (\<lambda>c. JStr (''`'' @ to_string frm @ ''`.'' @ to_string c)) xs))"
    unfolding join_values_def using clean assms(3)
    by (intro dollar_free_join) (auto simp: elem_string_def)
  ultimately show ?thesis by simp
qed

lemma where_part_holds:
  assumes "where_part cl vs = Inr (ws, vs')"
    and "\<forall>c\<in>set (c_where cl). \<forall>f. get_prop (params c) ''field'' = Inr f \<longrightarrow> dollar_free (to_string f)"
  shows "\<exists>nss. list_all2 holds ws nss \<and> concat nss = [Suc (length vs)..<Suc (length vs')]"
proof (cases "c_where cl = []")
  case True
  with assms(1) show ?thesis by (simp add: where_part_def)
next
  case False
  with assms(1) obtain sts where w: "where_statements (c_where cl) vs = Inr (sts, vs')"
    and ws: "ws = [''WHERE '' @ join '' AND '' sts]"
    by (auto simp: where_part_def where_section_def toUpperCase_AND split: sum.splits)
  from where_statements_holds [OF w assms(2)] obtain nss where nss: "list_all2 holds sts nss"
    and c: "concat nss = [Suc (length vs)..<Suc (length vs')]" by blast
  have "holds (join '' AND '' sts) (concat nss)"
    using nss by (intro holds_join) (simp_all add: is_digit_def)
  then have "holds (''WHERE '' @ join '' AND '' sts) (concat nss)"
    by (intro holds_append_free) simp_all
  then show ?thesis
    using c by (intro exI [of _ "[concat nss]"]) (simp add: ws)
qed

lemma sort_part_holds:
  assumes "sort_part cl vs = Inr (ss, vs')"
    and "\<forall>g\<in>set (c_sort cl). \<forall>ord. get_prop g ''order'' = Inr ord \<longrightarrow> dollar_free (elem_string ord)"
  shows "\<exists>nss. list_all2 holds ss nss \<and> concat nss = [Suc (length vs)..<Suc (length vs')]"
proof (cases "c_sort cl = []")
  case True
  with assms(1) show ?thesis by (simp add: sort_part_def)
next
  case False
  with assms(1) obtain sts where w: "sort_statements (c_sort cl) vs = Inr (sts, vs')"
    and ss: "ss = [''ORDER BY '' @ join '', '' sts]"
    by (auto simp: sort_part_def sort_section_def split: sum.splits)
  from sort_statements_holds [OF w assms(2)] obtain nss where nss: "list_all2 holds sts nss"
    and c: "concat nss = [Suc (length vs)..<Suc (length vs')]" by blast
  have "holds (join '', '' sts) (concat nss)"
    using nss by (intro holds_join) (simp_all add: is_digit_def)
  then have "holds (''ORDER BY '' @ join '', '' sts) (concat nss)"
    by (intro holds_append_free) simp_all
  then show ?thesis
    using c by (intro exI [of _ "[concat nss]"]) (simp add: ss)
qed

lemma render_placeholders:
  assumes "render b vs cl = Inr r"
    and sel: "\<forall>xs. c_select cl = JArr xs \<longrightarrow> (\<forall>x\<in>set xs. dollar_free (to_string x))"
    and frm: "dollar_free (to_string (c_from cl))"
    and whr: "\<forall>c\<in>set (c_where cl). \<forall>f. get_prop (params c) ''field'' = Inr f \<longrightarrow> dollar_free (to_string f)"
    and srt: "\<forall>g\<in>set (c_sort cl). \<forall>ord. get_prop g ''order'' = Inr ord \<longrightarrow> dollar_free (elem_string ord)"
    and lim: "dollar_free (to_string (c_limit cl))" and off: "dollar_free (to_string (c_skip cl))"
  shows "placeholders (rquery r) =
           [Suc (length vs)..<Suc (length (vs @ where_values (c_where cl)))]
           @ (case c_rawWhere cl of None \<Rightarrow> [] | Some rw \<Rightarrow> placeholders (elem_string (params rw)))
           @ [Suc (length (vs @ where_values (c_where cl)))..<Suc (length (rvalues r))]"
proof -
  from assms(1) obtain s ws vs2 ss vs4 where s: "select_clause (c_select cl) (c_from cl) = Inr s"
    and w: "where_part cl vs = Inr (ws, vs2)"
    and o: "sort_part cl vs2 = Inr (ss, vs4)"
    and r: "r = \<lparr>rquery = join '' ''
             ([s] @ (if truthy b then [from_clause (c_from cl)] else []) @ ws
              @ (case c_rawWhere cl of None \<Rightarrow> []
                 | Some rw \<Rightarrow> [join_values '' '' [JStr ''WHERE'', params rw]])
              @ ss
              @ (if \<not> is_nullish (c_limit cl) then [limit_clause (c_limit cl)] else [])
              @ (if \<not> is_nullish (c_skip cl) then [skip_clause (c_skip cl)] else [])),
           rvalues = vs4\<rparr>"
    by (auto simp: render_alt simp del: join.simps split: sum.splits)
  define A where "A = [s] @ (if truthy b then [from_clause (c_from cl)] else [])"
  define B where "B = (case c_rawWhere cl of None \<Rightarrow> []
                 | Some rw \<Rightarrow> [join_values '' '' [JStr ''WHERE'', params rw]])"
  define C where "C = (if \<not> is_nullish (c_limit cl) then [limit_clause (c_limit cl)] else [])
              @ (if \<not> is_nullish (c_skip cl) then [skip_clause (c_skip cl)] else [])"
  define rs where "rs = (case c_rawWhere cl of None \<Rightarrow> [] | Some rw \<Rightarrow> placeholders (elem_string (params rw)))"
  have q: "rquery r = join '' '' (A @ ws @ B @ ss @ C)"
    by (simp add: r A_def B_def C_def del: join.simps)
  have "dollar_free s"
    using select_clause_dollar_free [OF s sel frm] .
  then have A: "\<forall>x\<in>set A. dollar_free x"
    using frm by (simp add: A_def from_clause_def)
  have B: "\<exists>bn. list_all2 holds B bn \<and> concat bn = rs"
  proof (cases "c_rawWhere cl")
    case None
    then show ?thesis by (simp add: B_def rs_def)
  next
    case (Some rw)
    have "holds (''WHERE '' @ elem_string (params rw)) (placeholders (elem_string (params rw)))"
      by (intro holds_append_free holds_self) simp
    moreover have "join_values '' '' [JStr ''WHERE'', params rw] = ''WHERE '' @ elem_string (params rw)"
      by (simp add: join_values_def) (simp add: elem_string_def)
    ultimately show ?thesis
      using Some
      by (intro exI [of _ "[placeholders (elem_string (params rw))]"]) (simp add: B_def rs_def)
  qed
  then obtain bn where bn: "list_all2 holds B bn" and bc: "concat bn = rs" by blast
  have C: "\<forall>x\<in>set C. dollar_free x"
    using lim off by (auto simp: C_def limit_clause_def skip_clause_def)
  from where_part_holds [OF w whr] obtain wn where wn: "list_all2 holds ws wn"
    and wc: "concat wn = [Suc (length vs)..<Suc (length vs2)]" by blast
  from sort_part_holds [OF o srt] obtain sn where sn: "list_all2 holds ss sn"
    and sc: "concat sn = [Suc (length vs2)..<Suc (length vs4)]" by blast
  have vs2: "vs2 = vs @ where_values (c_where cl)"
    using where_part_values [OF w] .
  let ?nss = "replicate (length A) [] @ wn @ bn @ sn @ replicate (length C) []"
  have "list_all2 holds (A @ ws @ B @ ss @ C) ?nss"
    using holds_free_list [OF A] bn holds_free_list [OF C] wn sn
    by (intro list_all2_appendI)
  then have "holds (join '' '' (A @ ws @ B @ ss @ C)) (concat ?nss)"
    by (intro holds_join) (simp_all add: is_digit_def)
  moreover have "concat ?nss = concat wn @ rs @ concat sn"
    by (simp add: bc)
  ultimately have "holds (join '' '' (A @ ws @ B @ ss @ C))
      ([Suc (length vs)..<Suc (length vs2)] @ rs @ [Suc (length vs2)..<Suc (length vs4)])"
    by (simp only: wc sc)
  then have "placeholders (rquery r) = [Suc (length vs)..<Suc (length vs2)] @ rs @ [Suc (length vs2)..<Suc (length vs4)]"
    unfolding q by (rule holds_placeholders)
  moreover have "rvalues r = vs4"
    by (simp add: r)
  ultimately show ?thesis
    by (simp only: vs2 rs_def)
qed


subsection \<open>Placeholders after a sequence of calls\<close>

lemma last_entries_in: "entries t cs \<noteq> [] \<Longrightarrow> last (entries t cs) \<in> set cs \<and> ctype (last (entries t cs)) = JStr t"
  using last_in_set [of "entries t cs"] by (auto simp: entries_def)

lemma clean_without_raw:
  "clean_log (without_raw cs) \<Longrightarrow> c \<in> set cs \<Longrightarrow> ctype c \<noteq> JStr ''rawWhere'' \<Longrightarrow>
   t \<in> set (entry_texts c) \<Longrightarrow> dollar_free t"
  by (auto simp: clean_log_def without_raw_def)

lemma build_placeholders:
  assumes b: "build qb = Inr (r, qb')"
    and clean: "clean_log (without_raw (query qb))"
    and bk: "dollar_free (to_string (bucket qb))"
  shows "placeholders (rquery r) =
           [Suc (length (pvalues qb))..<Suc (length (pvalues qb @ where_values (comparisons (query qb))))]
           @ placeholders (raw_text (query qb))
           @ [Suc (length (pvalues qb @ where_values (comparisons (query qb))))..<Suc (length (rvalues r))]"
proof -
  from b obtain cl where cl: "collect_all (query qb) (initial_clauses qb) = Inr cl"
    and rd: "render (bucket qb) (pvalues qb) cl = Inr r"
    by (auto simp: build_def split: sum.splits)
  have texts: "c \<in> set (query qb) \<Longrightarrow> ctype c \<noteq> JStr ''rawWhere'' \<Longrightarrow> t \<in> set (entry_texts c) \<Longrightarrow> dollar_free t" for c t
    using clean_without_raw [OF clean] .
  have sel: "\<forall>xs. c_select cl = JArr xs \<longrightarrow> (\<forall>x\<in>set xs. dollar_free (to_string x))"
  proof (cases "entries ''select'' (query qb) = []")
    case True
    then show ?thesis
      using collect_all_select [OF cl] by (simp add: initial_clauses_def)
  next
    case False
    let ?c = "last (entries ''select'' (query qb))"
    have "c_select cl = params ?c"
      using collect_all_select [OF cl] False by simp
    moreover have "?c \<in> set (query qb)" "ctype ?c = JStr ''select''"
      using last_entries_in [OF False] by simp_all
    ultimately show ?thesis
      using texts [of ?c] by (auto simp: entry_texts_def)
  qed
  have frm: "dollar_free (to_string (c_from cl))"
  proof (cases "entries ''from'' (query qb) = []")
    case True
    then show ?thesis
      using collect_all_from [OF cl] bk by (simp add: initial_clauses_def)
  next
    case False
    let ?c = "last (entries ''from'' (query qb))"
    have "c_from cl = params ?c"
      using collect_all_from [OF cl] False by simp
    moreover have "?c \<in> set (query qb)" "ctype ?c = JStr ''from''"
      using last_entries_in [OF False] by simp_all
    ultimately show ?thesis
      using texts [of ?c] by (auto simp: entry_texts_def)
  qed
  have whr: "\<forall>c\<in>set (c_where cl). \<forall>f. get_prop (params c) ''field'' = Inr f \<longrightarrow> dollar_free (to_string f)"
  proof (intro ballI allI impI)
    fix c f
    assume "c \<in> set (c_where cl)" and f: "get_prop (params c) ''field'' = Inr f"
    then have c: "c \<in> set (query qb)" "ctype c \<in> set where_types"
      using collect_all_where [OF cl] by (auto simp: initial_clauses_def comparisons_def)
    then have "ctype c \<noteq> JStr ''select''" "ctype c \<noteq> JStr ''from''" "ctype c \<noteq> JStr ''rawWhere''"
      by (auto simp: where_types_def)
    with c f show "dollar_free (to_string f)"
      using texts [of c] by (simp add: entry_texts_def)
  qed
  have raw: "(case c_rawWhere cl of None \<Rightarrow> [] | Some rw \<Rightarrow> placeholders (elem_string (params rw)))
             = placeholders (raw_text (query qb))"
    using collect_all_rawWhere [OF cl] by (simp add: initial_clauses_def raw_text_def)
  have srt: "\<forall>g\<in>set (c_sort cl). \<forall>ord. get_prop g ''order'' = Inr ord \<longrightarrow> dollar_free (elem_string ord)"
  proof (intro ballI allI impI)
    fix g ord
    assume "g \<in> set (c_sort cl)" and o: "get_prop g ''order'' = Inr ord"
    then obtain c where c: "c \<in> set (query qb)" "ctype c = JStr ''sort''" "g = params c"
      using collect_all_sort [OF cl] by (auto simp: initial_clauses_def entries_def)
    with o show "dollar_free (elem_string ord)"
      using texts [of c] by (simp add: entry_texts_def where_types_def)
  qed
  have lim: "dollar_free (to_string (c_limit cl))"
    using collect_all_limit [OF cl] by (simp add: initial_clauses_def dollar_free_num_to_string)
  have off: "dollar_free (to_string (c_skip cl))"
    using collect_all_skip [OF cl] by (simp add: initial_clauses_def dollar_free_num_to_string)
  have w: "where_values (c_where cl) = where_values (comparisons (query qb))"
    using collect_all_where [OF cl] by (simp add: initial_clauses_def)
  show ?thesis
    using render_placeholders [OF rd sel frm whr srt lim off] unfolding raw w .
qed

lemma entry_texts_where:
  "entry_texts \<lparr>ctype = x, params = JObj [(''field'', f), (''value'', v)]\<rparr> =
     (if x = JStr ''select'' then []
      else if x = JStr ''from'' then [''[object Object]'']
      else if x \<in> set where_types then [to_string f]
      else if x = JStr ''rawWhere'' then [''[object Object]'']
      else if x = JStr ''sort'' then [[]]
      else [])"
  unfolding entry_texts_def
  apply (simp only: component.simps jsval.case get_prop.simps)
  apply (simp only: elem_string_def to_string.simps is_nullish.simps if_False)
  apply (simp only: map_of.simps fst_conv snd_conv)
  apply simp
  done

lemma apply_call_clean:
  assumes "apply_call c qb = Inr qb'" and "\<forall>t\<in>set (call_texts c). dollar_free t"
  shows "\<exists>e. qb' = add (ctype e) (params e) qb \<and> (\<forall>t\<in>set (entry_texts e). dollar_free t)"
proof -
  have ex: "qb' = add t p qb \<Longrightarrow> \<forall>x\<in>set (entry_texts \<lparr>ctype = t, params = p\<rparr>). dollar_free x \<Longrightarrow> ?thesis" for t p
    by (rule exI [of _ "\<lparr>ctype = t, params = p\<rparr>"]) simp
  show ?thesis
  proof (cases c)
    case (Select xs)
    show ?thesis
      using assms Select by (intro ex [of "JStr ''select''" "JArr xs"]) (simp_all add: select_def entry_texts_def)
  next
    case (From n)
    show ?thesis
      using assms From by (intro ex [of "JStr ''from''" n]) (simp_all add: from_name_def entry_texts_def)
  next
    case (Limit a)
    show ?thesis
      using assms Limit
      by (intro ex [of "JStr ''limit''" a]) (simp_all add: limit_def entry_texts_def where_types_def split: if_splits)
  next
    case (Skip a)
    show ?thesis
      using assms Skip
      by (intro ex [of "JStr ''skip''" a]) (simp_all add: skip_def entry_texts_def where_types_def split: if_splits)
  next
    case (Sort f ord)
    with assms(1) obtain k where k: "k = ''ASC'' \<or> k = ''DESC''"
      and q: "qb' = add (JStr ''sort'') (JObj [(''fields'', case f of JStr s \<Rightarrow> JArr [f] | _ \<Rightarrow> f), (''order'', JStr k)]) qb"
      by (auto simp: sort_by_def Let_def split: if_splits jsval.splits)
    show ?thesis
      using k by (intro ex [OF q]) (auto simp: entry_texts_def where_types_def elem_string_def)
  next
    case (Where f op v)
    have "dollar_free (to_string f)"
      using assms(2) Where by simp
    then have t: "\<forall>t\<in>set (entry_texts \<lparr>ctype = op, params = JObj [(''field'', f), (''value'', v)]\<rparr>). dollar_free t"
      by (simp add: entry_texts_where)
    have q: "qb' = add op (JObj [(''field'', f), (''value'', v)]) qb"
      using assms(1) Where by (simp add: where_clause_def)
    show ?thesis
      by (rule ex [OF q t])
  next
    case (RawWhere t)
    show ?thesis
      using assms RawWhere
      by (intro ex [of "JStr ''rawWhere''" t]) (simp_all add: rawWhere_def entry_texts_def where_types_def)
  qed
qed

lemma run_clean:
  assumes "run cs qb = Inr qb'" and "\<forall>c\<in>set cs. \<forall>t\<in>set (call_texts c). dollar_free t"
    and "clean_log (query qb)"
  shows "clean_log (query qb') \<and> bucket qb' = bucket qb \<and> pvalues qb' = pvalues qb"
  using assms
proof (induction cs arbitrary: qb)
  case Nil
  then show ?case by simp
next
  case (Cons c cs)
  from Cons.prems(1) obtain qb1 where 1: "apply_call c qb = Inr qb1" and 2: "run cs qb1 = Inr qb'"
    by (auto split: sum.splits)
  from apply_call_clean [OF 1] Cons.prems(2) obtain e where
    e: "qb1 = add (ctype e) (params e) qb" "\<forall>t\<in>set (entry_texts e). dollar_free t"
    by auto
  have q1: "query qb1 = query qb @ [e]" "bucket qb1 = bucket qb" "pvalues qb1 = pvalues qb"
    using e(1) by (simp_all add: add_def)
  have "clean_log (query qb1)"
    using e(2) Cons.prems(3) by (auto simp: clean_log_def q1)
  from Cons.IH [OF 2 _ this] Cons.prems(2) q1 show ?case
    by simp
qed

lemma upt_glue: "i \<le> j \<Longrightarrow> j \<le> k \<Longrightarrow> [i..<j] @ [j..<k] = [i..<k]"
  using upt_add_eq_append [of i j "k - j"] by simp

lemma clean_log_without_raw: "clean_log cs \<Longrightarrow> clean_log (without_raw cs)"
  by (auto simp: clean_log_def without_raw_def)

lemma clean_log_raw_text: "clean_log cs \<Longrightarrow> placeholders (raw_text cs) = []"
proof (cases "entries ''rawWhere'' cs = []")
  case True
  then show ?thesis by (simp add: raw_text_def)
next
  case False
  assume c: "clean_log cs"
  let ?c = "last (entries ''rawWhere'' cs)"
  have "?c \<in> set cs" "ctype ?c = JStr ''rawWhere''"
    using last_entries_in [OF False] by simp_all
  then have "dollar_free (elem_string (params ?c))"
    using c by (auto simp: clean_log_def entry_texts_def where_types_def)
  then show ?thesis
    using False holds_placeholders [OF holds_free] by (simp add: raw_text_def)
qed

lemma build_ascending:
  assumes 1: "build st = Inr (r2, st')" and 2: "dollar_free (to_string (bucket st))"
    and 3: "clean_log (without_raw (query st))"
    and 4: "placeholders (raw_text (query st)) = [1..<Suc (length (pvalues st))]"
    and 5: "pvalues st = [] \<or> where_values (comparisons (query st)) = []"
  shows "placeholders (rquery r2) = [1..<Suc (length (rvalues r2))]"
proof -
  have v: "length (pvalues st) + length (where_values (comparisons (query st))) \<le> length (rvalues r2)"
    using build_values [OF 1] by (simp add: bound_values_def)
  from 5 show ?thesis
  proof
    assume p: "pvalues st = []"
    show ?thesis
      using build_placeholders [OF 1 3 2] 4 v
      by (simp add: p upt_glue del: upt_Suc)
  next
    assume w: "where_values (comparisons (query st)) = []"
    show ?thesis
      using build_placeholders [OF 1 3 2] 4 v
      by (simp add: w upt_glue del: upt_Suc)
  qed
qed

text \<open>
  Claim C1, as stated, fails. The text of \<^verbatim>\<open>rawWhere\<close> is copied as it is, so
  \<^verbatim>\<open>rawWhere('a = $1')\<close> on a fresh builder renders one placeholder and no value. And
  \<^verbatim>\<open>interpret\<close> calls \<^verbatim>\<open>build\<close> itself: after \<^verbatim>\<open>where('a', 'eq', 1)\<close> and an
  \<^verbatim>\<open>interpret\<close> of a query without directives, \<^verbatim>\<open>build\<close> binds the value a second time
  and renders \<^verbatim>\<open>$2\<close> alone, with two values.
\<close>

theorem placeholders_counterexample:
  "result (rawWhere (JStr ''a = $1'') (new_QueryBuilder JUndefined)) =
     Inr \<lparr>rquery = ''SELECT * WHERE a = $1'', rvalues = []\<rparr>
   \<and> placeholders ''SELECT * WHERE a = $1'' = [1]
   \<and> (case interpret_directives []
              (where_clause (JStr ''a'') (JStr ''eq'') (JNum (Fin 1 0)) (new_QueryBuilder JUndefined)) of
         Inl e \<Rightarrow> Inl e
       | Inr (r, qb) \<Rightarrow> result qb) =
     Inr \<lparr>rquery = ''SELECT * WHERE a = $2'', rvalues = [JNum (Fin 1 0), JNum (Fin 1 0)]\<rparr>
   \<and> placeholders ''SELECT * WHERE a = $2'' = [2]"
  by code_simp

text \<open>
  Claim C1, amended. The placeholders of the query that a \<^verbatim>\<open>build\<close> returns are \<open>$1\<close>,
  \<open>$2\<close>, ... up to the number of returned values, each once and in ascending order,
  in two cases. First, after any sequence of \<^verbatim>\<open>select\<close>, \<^verbatim>\<open>from\<close>, \<^verbatim>\<open>limit\<close>, \<^verbatim>\<open>skip\<close>,
  \<^verbatim>\<open>sort\<close>, \<^verbatim>\<open>where\<close> and \<^verbatim>\<open>rawWhere\<close> calls on a fresh builder, none of which throws,
  provided that no text that is copied into the query holds a \<^verbatim>\<open>$\<close>: the bucket, the
  columns of \<^verbatim>\<open>select\<close>, the names of \<^verbatim>\<open>from\<close>, the fields of \<^verbatim>\<open>where\<close> and the texts of
  \<^verbatim>\<open>rawWhere\<close>. Second, for a builder that already holds \<open>k\<close> parameters, as \<^verbatim>\<open>interpret\<close>
  leaves it before its own \<^verbatim>\<open>build\<close>: provided that the text of the last \<^verbatim>\<open>rawWhere\<close> has
  exactly the placeholders \<open>$1\<close>, ..., \<open>$k\<close>, that the other copied texts hold no \<^verbatim>\<open>$\<close>,
  and that either \<open>k\<close> is zero or no comparison of the log binds a value.
\<close>

theorem placeholders_ascending:
  "(run calls (new_QueryBuilder b) = Inr qb \<and> build qb = Inr (r, qb')
      \<and> dollar_free (to_string b) \<and> (\<forall>c\<in>set calls. \<forall>t\<in>set (call_texts c). dollar_free t)
    \<longrightarrow> placeholders (rquery r) = [1..<Suc (length (rvalues r))])
   \<and> (build st = Inr (r2, st')
      \<and> dollar_free (to_string (bucket st)) \<and> clean_log (without_raw (query st))
      \<and> placeholders (raw_text (query st)) = [1..<Suc (length (pvalues st))]
      \<and> (pvalues st = [] \<or> where_values (comparisons (query st)) = [])
    \<longrightarrow> placeholders (rquery r2) = [1..<Suc (length (rvalues r2))])"
proof (intro conjI impI; elim conjE)
  assume 1: "run calls (new_QueryBuilder b) = Inr qb" and 2: "build qb = Inr (r, qb')"
    and 3: "dollar_free (to_string b)"
    and 4: "\<forall>c\<in>set calls. \<forall>t\<in>set (call_texts c). dollar_free t"
  have "clean_log (query (new_QueryBuilder b))"
    by (simp add: new_QueryBuilder_def clean_log_def)
  from run_clean [OF 1 4 this]
  have c: "clean_log (query qb)" and bk: "bucket qb = bucket (new_QueryBuilder b)"
    and p: "pvalues qb = []"
    by (simp_all add: new_QueryBuilder_def)
  have d: "dollar_free (to_string (bucket qb))"
    using 3 by (simp add: bk new_QueryBuilder_def)
  have v: "length (where_values (comparisons (query qb))) \<le> length (rvalues r)"
    using build_values [OF 2] by (simp add: bound_values_def)
  show "placeholders (rquery r) = [1..<Suc (length (rvalues r))]"
    using build_placeholders [OF 2 clean_log_without_raw [OF c] d] v
    by (simp add: p clean_log_raw_text [OF c] upt_glue del: upt_Suc)
next
  assume 1: "build st = Inr (r2, st')" and 2: "dollar_free (to_string (bucket st))"
    and 3: "clean_log (without_raw (query st))"
    and 4: "placeholders (raw_text (query st)) = [1..<Suc (length (pvalues st))]"
    and 5: "pvalues st = [] \<or> where_values (comparisons (query st)) = []"
  show "placeholders (rquery r2) = [1..<Suc (length (rvalues r2))]"
    using build_ascending [OF 1 2 3 4 5] .
qed

theorem placeholders_ascending_witness:
  "placeholders ''SELECT * WHERE a = $1 ORDER BY $2 ASC'' = [1..<Suc (length [JNum (Fin 1 0), JStr ''n''])]
   \<and> placeholders ''SELECT * WHERE (a > $1) ORDER BY $2 ASC'' = [1..<Suc (length [JNum (Fin 3 0), JStr ''n''])]"
proof -
  let ?calls = "[Where (JStr ''a'') (JStr ''eq'') (JNum (Fin 1 0)), Sort (JStr ''n'') JUndefined]"
  let ?sort = "\<lparr>ctype = JStr ''sort'',
                params = JObj [(''fields'', JArr [JStr ''n'']), (''order'', JStr ''ASC'')]\<rparr>"
  let ?log = "[\<lparr>ctype = JStr ''eq'', params = JObj [(''field'', JStr ''a''), (''value'', JNum (Fin 1 0))]\<rparr>,
               ?sort]"
  let ?qb = "\<lparr>bucket = JNull, query = ?log, pvalues = []\<rparr>"
  let ?r = "\<lparr>rquery = ''SELECT * WHERE a = $1 ORDER BY $2 ASC'', rvalues = [JNum (Fin 1 0), JStr ''n'']\<rparr>"
  let ?qb' = "\<lparr>bucket = JNull, query = ?log, pvalues = [JNum (Fin 1 0), JStr ''n'']\<rparr>"
  let ?log2 = "[?sort, raw_entry (JStr ''(a > $1)'')]"
  let ?st = "\<lparr>bucket = JNull, query = ?log2, pvalues = [JNum (Fin 3 0)]\<rparr>"
  let ?r2 = "\<lparr>rquery = ''SELECT * WHERE (a > $1) ORDER BY $2 ASC'', rvalues = [JNum (Fin 3 0), JStr ''n'']\<rparr>"
  let ?st' = "\<lparr>bucket = JNull, query = ?log2, pvalues = [JNum (Fin 3 0), JStr ''n'']\<rparr>"
  have 1: "run ?calls (new_QueryBuilder JNull) = Inr ?qb"
    by code_simp
  have 2: "build ?qb = Inr (?r, ?qb')"
    by code_simp
  have 3: "dollar_free (to_string JNull)"
    by simp
  have 4: "\<forall>c\<in>set ?calls. \<forall>t\<in>set (call_texts c). dollar_free t"
    by simp
  have 5: "build ?st = Inr (?r2, ?st')"
    by code_simp
  have 6: "clean_log (without_raw (query ?st))"
    by code_simp
  have 7: "placeholders (raw_text (query ?st)) = [1..<Suc (length (pvalues ?st))]"
    by code_simp
  have 8: "where_values (comparisons (query ?st)) = []"
    by code_simp
  show ?thesis
    using placeholders_ascending [where calls = ?calls and b = JNull and qb = ?qb and r = ?r
        and qb' = ?qb' and st = ?st and ?r2.0 = ?r2 and st' = ?st'] 1 2 3 4 5 6 7 8
    by simp
qed

subsection \<open>Placeholders after interpret\<close>

text \<open>
  \<^verbatim>\<open>_buildWhere\<close> numbers the values it binds from the parameters the instance holds, and
  the nodes print their fields as they are.
\<close>

lemma placeholders_join:
  assumes "sep \<noteq> []" and "\<not> is_digit (hd sep)" and "dollar_free sep"
  shows "placeholders (join sep xs) = concat (map placeholders xs)"
proof -
  have "list_all2 holds xs (map placeholders xs)"
    by (simp add: list_all2_conv_all_nth holds_self)
  from holds_placeholders [OF holds_join [OF assms this]] show ?thesis .
qed

lemma symbol_dollar_free: "dollar_free (symbol op)"
  by (cases op) simp_all

lemma stringify_placeholders:
  assumes "stringify l vs = (s, vs')" and "dollar_free (leaf_field l)"
  shows "placeholders s = [Suc (length vs)..<Suc (length vs')] \<and> length vs \<le> length vs'"
proof (cases l)
  case (Leaf op f v)
  show ?thesis
  proof (cases "is_nullish v")
    case True
    then have "s = f @ '' '' @ symbol op @ '' NULL''" "vs' = vs"
      using assms(1) Leaf by (simp_all add: leaf_toString_def)
    moreover have "dollar_free (f @ '' '' @ symbol op @ '' NULL'')"
      using assms(2) Leaf by (simp add: symbol_dollar_free)
    ultimately show ?thesis
      using holds_placeholders [OF holds_free] by simp
  next
    case False
    then have s: "s = (f @ '' '' @ symbol op @ '' '') @ (CHR ''$'' # digits_of (Suc (length vs)))"
      and v: "vs' = vs @ [v]"
      using assms(1) Leaf by (simp_all add: leaf_toString_def parameterValue_def)
    have "dollar_free (f @ '' '' @ symbol op @ '' '')"
      using assms(2) Leaf by (simp add: symbol_dollar_free)
    from holds_placeholders [OF holds_append_free [OF this holds_placeholder]]
    show ?thesis
      unfolding s v by simp
  qed
qed

lemma stringify_all_placeholders:
  assumes "stringify_all ls vs = (ss, vs')" and "\<forall>l\<in>set ls. dollar_free (leaf_field l)"
  shows "concat (map placeholders ss) = [Suc (length vs)..<Suc (length vs')] \<and> length vs \<le> length vs'"
  using assms
proof (induction ls arbitrary: vs ss)
  case Nil
  then show ?case by simp
next
  case (Cons l ls)
  from Cons.prems(1) obtain s vs1 ss1 where 1: "stringify l vs = (s, vs1)"
    and 2: "stringify_all ls vs1 = (ss1, vs')" and ss: "ss = s # ss1"
    by (auto split: prod.splits)
  from stringify_placeholders [OF 1] Cons.prems(2)
  have a: "placeholders s = [Suc (length vs)..<Suc (length vs1)]" "length vs \<le> length vs1"
    by simp_all
  from Cons.IH [OF 2] Cons.prems(2)
  have b: "concat (map placeholders ss1) = [Suc (length vs1)..<Suc (length vs')]" "length vs1 \<le> length vs'"
    by simp_all
  show ?case
    using a b by (simp add: ss upt_glue del: upt_Suc)
qed

lemma toUpperCase_and: "toUpperCase ''and'' = ''AND''"
  by code_simp

lemma toUpperCase_or: "toUpperCase ''or'' = ''OR''"
  by code_simp

lemma toUpperCase_junction: "toUpperCase (junction_name j) = (case j of J_and \<Rightarrow> ''AND'' | J_or \<Rightarrow> ''OR'')"
  by (cases j) (simp_all only: junction_name.simps toUpperCase_and toUpperCase_or junction.case)

lemma junction_separator:
  "'' '' @ toUpperCase (junction_name j) @ '' '' \<noteq> []"
  "\<not> is_digit (hd ('' '' @ toUpperCase (junction_name j) @ '' ''))"
  "dollar_free ('' '' @ toUpperCase (junction_name j) @ '' '')"
  unfolding toUpperCase_junction by (cases j; simp add: is_digit_def)+

lemma build_parts_placeholders:
  "build_part p vs = (sts, vs') \<Longrightarrow> \<forall>f\<in>set (part_fields p). dollar_free f \<Longrightarrow>
     concat (map placeholders sts) = [Suc (length vs)..<Suc (length vs')] \<and> length vs \<le> length vs'"
  "build_parts ps vs = (sts, vs') \<Longrightarrow> \<forall>f\<in>set (concat (map part_fields ps)). dollar_free f \<Longrightarrow>
     concat (map placeholders sts) = [Suc (length vs)..<Suc (length vs')] \<and> length vs \<le> length vs'"
proof (induction p vs and ps vs arbitrary: sts vs' and sts vs' rule: build_part_build_parts.induct)
  case (1 ls vs)
  then show ?case
    using stringify_all_placeholders [of ls vs sts vs'] by simp
next
  case (2 j ps vs)
  from 2(2) obtain inner where i: "build_parts ps vs = (inner, vs')"
    and sts: "sts = [''('' @ join ('' '' @ toUpperCase (junction_name j) @ '' '') inner @ '')'']"
    by (auto split: prod.splits)
  from 2(1) [OF i] 2(3)
  have a: "concat (map placeholders inner) = [Suc (length vs)..<Suc (length vs')]" "length vs \<le> length vs'"
    by simp_all
  have "placeholders (''('' @ (join ('' '' @ toUpperCase (junction_name j) @ '' '') inner @ '')''))
        = placeholders (join ('' '' @ toUpperCase (junction_name j) @ '' '') inner @ '')'')"
    by (rule placeholders_dollar_free) simp
  also have "\<dots> = placeholders (join ('' '' @ toUpperCase (junction_name j) @ '' '') inner) @ placeholders '')''"
    by (rule placeholders_append) (simp add: is_digit_def)
  also have "\<dots> = concat (map placeholders inner)"
    unfolding placeholders_join [OF junction_separator] by (simp add: is_digit_def)
  finally show ?case
    using a by (simp add: sts)
next
  case (3 l vs)
  from 3(1) obtain s where s: "stringify l vs = (s, vs')" and sts: "sts = [s]"
    by (auto split: prod.splits)
  from stringify_placeholders [OF s] 3(2) show ?case
    by (simp add: sts)
next
  case (4 vs)
  then show ?case by simp
next
  case (5 p ps vs)
  from 5(3) obtain a vs1 b where 1: "build_part p vs = (a, vs1)"
    and 2: "build_parts ps vs1 = (b, vs')" and sts: "sts = a @ b"
    by (auto split: prod.splits)
  from 5(1) [OF 1] 5(4)
  have a: "concat (map placeholders a) = [Suc (length vs)..<Suc (length vs1)]" "length vs \<le> length vs1"
    by simp_all
  from 5(2) [OF 1 [symmetric] refl 2] 5(4)
  have b: "concat (map placeholders b) = [Suc (length vs1)..<Suc (length vs')]" "length vs1 \<le> length vs'"
    by simp_all
  show ?case
    using a b by (simp add: sts upt_glue del: upt_Suc)
qed

lemma buildWhere_placeholders:
  assumes "buildWhere ps ''AND'' vs = (text, vs')" and "\<forall>f\<in>set (concat (map part_fields ps)). dollar_free f"
  shows "placeholders text = [Suc (length vs)..<Suc (length vs')]"
proof -
  from assms(1) obtain sts where 1: "build_parts ps vs = (sts, vs')" and t: "text = join '' AND '' sts"
    by (auto simp: buildWhere_def split: prod.splits)
  have "placeholders (join '' AND '' sts) = concat (map placeholders sts)"
    by (rule placeholders_join) (simp_all add: is_digit_def)
  with build_parts_placeholders(2) [OF 1 assms(2)] show ?thesis
    by (simp add: t)
qed


text \<open>
  The nodes other than \<open>and\<close> append entries that bind nothing before \<^verbatim>\<open>build\<close>; the \<open>and\<close>
  node, of which \<^verbatim>\<open>QueryInterpreter\<close> returns at most one, leaves a raw text whose
  placeholders are those of the parameters bound so far.
\<close>

lemma replayed_state:
  assumes "\<forall>e\<in>set es. replayed e"
  shows "comparisons (cs @ es) = comparisons cs"
    and "entries ''rawWhere'' (cs @ es) = entries ''rawWhere'' cs"
    and "raw_text (cs @ es) = raw_text cs"
    and "clean_log (without_raw cs) \<Longrightarrow> clean_log (without_raw (cs @ es))"
proof -
  show "comparisons (cs @ es) = comparisons cs"
    using assms by (auto simp: comparisons_def replayed_def where_types_def filter_empty_conv)
  show r: "entries ''rawWhere'' (cs @ es) = entries ''rawWhere'' cs"
    using assms by (auto simp: entries_def replayed_def filter_empty_conv)
  show "raw_text (cs @ es) = raw_text cs"
    by (simp only: raw_text_def r)
  show "clean_log (without_raw cs) \<Longrightarrow> clean_log (without_raw (cs @ es))"
    using assms by (auto simp: clean_log_def without_raw_def replayed_def)
qed

lemma replay_sort_entries:
  "replay_sort fvs qb = Inr qb' \<Longrightarrow>
     \<exists>es. qb' = qb\<lparr>query := query qb @ es\<rparr> \<and> (\<forall>e\<in>set es. replayed e)"
proof (induction fvs arbitrary: qb)
  case Nil
  then show ?case by (intro exI [of _ "[]"]) simp
next
  case (Cons fv fvs)
  obtain f v where fv: "fv = (f, v)" by (cases fv)
  from Cons.prems obtain qb1 where 1: "sort_by f (JStr (if gt_zero v then ''ASC'' else ''DESC'')) qb = Inr qb1"
    and 2: "replay_sort fvs qb1 = Inr qb'"
    by (auto simp: fv split: sum.splits)
  from 1 obtain k p where k: "k = ''ASC'' \<or> k = ''DESC''"
    and q: "qb1 = add (JStr ''sort'') (JObj [(''fields'', p), (''order'', JStr k)]) qb"
    by (auto simp: sort_by_def Let_def split: if_splits jsval.splits)
  let ?e = "\<lparr>ctype = JStr ''sort'', params = JObj [(''fields'', p), (''order'', JStr k)]\<rparr>"
  have e: "replayed ?e"
    using k by (auto simp: replayed_def entry_texts_def where_types_def elem_string_def)
  from Cons.IH [OF 2] obtain es where es: "qb' = qb1\<lparr>query := query qb1 @ es\<rparr>" "\<forall>e\<in>set es. replayed e"
    by blast
  show ?case
    using es e by (intro exI [of _ "?e # es"]) (simp add: q add_def)
qed

lemma replay_entries:
  assumes "replay d qb = Inr qb'" and "\<not> is_and d" and "\<forall>t\<in>set (directive_texts d). dollar_free t"
  shows "\<exists>es. qb' = qb\<lparr>query := query qb @ es\<rparr> \<and> (\<forall>e\<in>set es. replayed e)"
proof (cases d)
  case (DSelect xs)
  then show ?thesis
    using assms
    by (intro exI [of _ "[\<lparr>ctype = JStr ''select'', params = JArr xs\<rparr>]"])
       (simp add: select_def add_def replayed_def entry_texts_def)
next
  case (DSkip v)
  then show ?thesis
    using assms
    by (intro exI [of _ "[\<lparr>ctype = JStr ''skip'', params = v\<rparr>]"])
       (simp add: skip_def add_def replayed_def entry_texts_def where_types_def split: if_splits)
next
  case (DLimit v)
  then show ?thesis
    using assms
    by (intro exI [of _ "[\<lparr>ctype = JStr ''limit'', params = v\<rparr>]"])
       (simp add: limit_def add_def replayed_def entry_texts_def where_types_def split: if_splits)
next
  case (DSort fvs)
  then show ?thesis
    using assms replay_sort_entries [of fvs qb qb'] by simp
next
  case (DAnd ps)
  then show ?thesis using assms by simp
next
  case (DOr ps)
  then show ?thesis using assms by (intro exI [of _ "[]"]) simp
next
  case (DComparison op v)
  then show ?thesis using assms by simp
qed

lemma replay_all_plain:
  assumes "replay_all ds qb = Inr qb'" and "filter is_and ds = []"
    and "\<forall>d\<in>set ds. \<forall>t\<in>set (directive_texts d). dollar_free t"
  shows "\<exists>es. qb' = qb\<lparr>query := query qb @ es\<rparr> \<and> (\<forall>e\<in>set es. replayed e)"
  using assms
proof (induction ds arbitrary: qb)
  case Nil
  then show ?case by (intro exI [of _ "[]"]) simp
next
  case (Cons d ds)
  from Cons.prems(1) obtain qb1 where 1: "replay d qb = Inr qb1" and 2: "replay_all ds qb1 = Inr qb'"
    by (auto split: sum.splits)
  have d: "\<not> is_and d" and ds: "filter is_and ds = []"
    using Cons.prems(2) by (auto split: if_splits)
  from replay_entries [OF 1 d] Cons.prems(3) obtain es1 where
    es1: "qb1 = qb\<lparr>query := query qb @ es1\<rparr>" "\<forall>e\<in>set es1. replayed e"
    by auto
  from Cons.IH [OF 2 ds] Cons.prems(3) obtain es2 where
    es2: "qb' = qb1\<lparr>query := query qb1 @ es2\<rparr>" "\<forall>e\<in>set es2. replayed e"
    by auto
  show ?case
    using es1 es2 by (intro exI [of _ "es1 @ es2"]) auto
qed

lemma replay_all_state:
  assumes "replay_all ds qb = Inr qb'" and "length (filter is_and ds) \<le> 1"
    and "\<forall>d\<in>set ds. \<forall>t\<in>set (directive_texts d). dollar_free t"
    and "pvalues qb = []" and "placeholders (raw_text (query qb)) = []"
    and "clean_log (without_raw (query qb))" and "comparisons (query qb) = []"
  shows "bucket qb' = bucket qb \<and> clean_log (without_raw (query qb')) \<and> comparisons (query qb') = []
         \<and> placeholders (raw_text (query qb')) = [1..<Suc (length (pvalues qb'))]"
  using assms
proof (induction ds arbitrary: qb)
  case Nil
  then show ?case by simp
next
  case (Cons d ds)
  from Cons.prems(1) obtain qb1 where 1: "replay d qb = Inr qb1" and 2: "replay_all ds qb1 = Inr qb'"
    by (auto split: sum.splits)
  show ?case
  proof (cases "is_and d")
    case False
    from replay_entries [OF 1 False] Cons.prems(3) obtain es where
      es: "qb1 = qb\<lparr>query := query qb @ es\<rparr>" "\<forall>e\<in>set es. replayed e"
      by auto
    have s: "pvalues qb1 = []" "placeholders (raw_text (query qb1)) = []"
      "clean_log (without_raw (query qb1))" "comparisons (query qb1) = []" "bucket qb1 = bucket qb"
      using Cons.prems(4-7) by (simp_all add: es(1) replayed_state [OF es(2)])
    have "length (filter is_and ds) \<le> 1"
      using Cons.prems(2) False by simp
    from Cons.IH [OF 2 this _ s(1-4)] Cons.prems(3) s(5) show ?thesis
      by simp
  next
    case True
    then obtain ps where d: "d = DAnd ps" by (cases d) simp_all
    obtain tx vs' where b: "buildWhere ps ''AND'' [] = (tx, vs')"
      by (cases "buildWhere ps ''AND'' []")
    have qb1: "qb1 = rawWhere (JStr tx) (qb\<lparr>pvalues := vs'\<rparr>)"
      using 1 b by (simp add: d Cons.prems(4))
    have t: "placeholders tx = [1..<Suc (length vs')]"
      using buildWhere_placeholders [OF b] Cons.prems(3) by (simp add: d)
    have ds: "filter is_and ds = []"
      using Cons.prems(2) True by simp
    from replay_all_plain [OF 2 ds] Cons.prems(3) obtain es where
      es: "qb' = qb1\<lparr>query := query qb1 @ es\<rparr>" "\<forall>e\<in>set es. replayed e"
      by auto
    have q1: "query qb1 = query qb @ [raw_entry (JStr tx)]" "pvalues qb1 = vs'" "bucket qb1 = bucket qb"
      by (simp_all add: qb1 rawWhere_def add_def raw_entry_def)
    have r1: "raw_text (query qb1) = tx"
      by (simp add: q1 raw_text_def entries_def raw_entry_def elem_string_def)
    have c1: "comparisons (query qb1) = []"
      using Cons.prems(7) by (simp add: q1 comparisons_def raw_entry_def where_types_def)
    have l1: "clean_log (without_raw (query qb1))"
      using Cons.prems(6) by (simp add: q1 without_raw_def raw_entry_def)
    have q': "query qb' = query qb1 @ es" "pvalues qb' = vs'" "bucket qb' = bucket qb"
      by (simp_all add: es(1) q1(2,3))
    have "comparisons (query qb') = []"
      unfolding q'(1) replayed_state(1) [OF es(2)] by (rule c1)
    moreover have "raw_text (query qb') = tx"
      unfolding q'(1) replayed_state(3) [OF es(2)] by (rule r1)
    moreover have "clean_log (without_raw (query qb'))"
      unfolding q'(1) by (rule replayed_state(4) [OF es(2) l1])
    ultimately show ?thesis
      using t q'(2,3) by (simp del: upt_Suc)
  qed
qed


text \<open>
  So \<^verbatim>\<open>interpret\<close> on a fresh builder returns a query whose placeholders are \<open>$1\<close>, \<open>$2\<close>,
  ... up to the number of returned values, as long as the fields and the columns hold no
  \<^verbatim>\<open>$\<close>. This rests on the modelled \<^verbatim>\<open>toString()\<close> of the comparison nodes.
\<close>

lemma interpret_placeholders:
  assumes "interpret_directives ds (new_QueryBuilder b) = Inr (r, qb')"
    and "dollar_free (to_string b)"
    and "\<forall>d\<in>set ds. \<forall>t\<in>set (directive_texts d). dollar_free t"
    and "length (filter is_and ds) \<le> 1"
  shows "placeholders (rquery r) = [1..<Suc (length (rvalues r))]"
proof -
  from assms(1) obtain st where 1: "replay_all ds (new_QueryBuilder b) = Inr st"
    and 2: "build st = Inr (r, qb')"
    by (auto simp: interpret_directives_def split: sum.splits)
  have "bucket st = bucket (new_QueryBuilder b) \<and> clean_log (without_raw (query st))
        \<and> comparisons (query st) = []
        \<and> placeholders (raw_text (query st)) = [1..<Suc (length (pvalues st))]"
    by (rule replay_all_state [OF 1 assms(4) assms(3)])
       (simp_all add: new_QueryBuilder_def raw_text_def entries_def clean_log_def without_raw_def
          comparisons_def)
  then have s: "bucket st = bucket (new_QueryBuilder b)" "clean_log (without_raw (query st))"
    "comparisons (query st) = []"
    "placeholders (raw_text (query st)) = [1..<Suc (length (pvalues st))]"
    by simp_all
  have d: "dollar_free (to_string (bucket st))"
    using assms(2) by (simp add: s(1) new_QueryBuilder_def)
  have w: "pvalues st = [] \<or> where_values (comparisons (query st)) = []"
    by (simp add: s(3) where_values_def)
  show ?thesis
    using build_ascending [OF 2 d s(2) s(4) w] .
qed

lemma shaping_not_and: "shaping k v = Inr d \<Longrightarrow> \<not> is_and d"
  by (auto simp: shaping_def split: if_splits jsval.splits option.splits)

lemma root_entries_not_and: "root_entries kvs = Inr (ds, ws) \<Longrightarrow> filter is_and ds = []"
proof (induction kvs arbitrary: ds ws)
  case Nil
  then show ?case by simp
next
  case (Cons kv kvs)
  obtain k v where kv: "kv = (k, v)" by (cases kv)
  show ?case
    using Cons.prems Cons.IH
    by (auto simp: kv shaping_not_and split: if_splits sum.splits)
qed

lemma interpret_query_placeholders:
  assumes "QueryInterpreter q = Inr ds"
    and "interpret_query q (new_QueryBuilder b) = Inr (r, qb')"
    and "dollar_free (to_string b)"
    and "\<forall>d\<in>set ds. \<forall>t\<in>set (directive_texts d). dollar_free t"
  shows "placeholders (rquery r) = [1..<Suc (length (rvalues r))]"
proof -
  have "length (filter is_and ds) \<le> 1"
    using assms(1) root_entries_not_and
    by (auto simp: QueryInterpreter_def split: jsval.splits sum.splits if_splits)
  moreover have "interpret_directives ds (new_QueryBuilder b) = Inr (r, qb')"
    using assms(1,2) by (simp add: interpret_query_def)
  ultimately show ?thesis
    using interpret_placeholders [OF _ assms(3,4)] by blast
qed

subsection \<open>Digits\<close>






subsection \<open>The integer that parseInt reads\<close>




subsection \<open>Validation of limit and skip\<close>










subsection \<open>Sorting\<close>

text \<open>
  Claim C8. \<^verbatim>\<open>sort('name')\<close> with no order given records the field with the order
  \<^verbatim>\<open>ASC\<close>; on a fresh builder, whatever its bucket, \<^verbatim>\<open>build\<close> then renders the projection
  (and the \<^verbatim>\<open>FROM\<close> section of a bound bucket) followed by \<^verbatim>\<open>ORDER BY $1 ASC\<close>, and the
  parameter list is the one string \<open>name\<close>. The name is bound as a parameter: the rendered
  text does not depend on it.
\<close>

theorem sort_default_ascending:
  "sort_by (JStr name) JUndefined (new_QueryBuilder b) =
     Inr (add (JStr ''sort'') (JObj [(''fields'', JArr [JStr name]), (''order'', JStr ''ASC'')])
            (new_QueryBuilder b))
   \<and> result (add (JStr ''sort'') (JObj [(''fields'', JArr [JStr name]), (''order'', JStr ''ASC'')])
               (new_QueryBuilder b)) =
     Inr \<lparr>rquery = (if is_nullish b then ''SELECT *'' else ''SELECT `'' @ to_string b @ ''`.*'')
                    @ (if truthy b then '' FROM `'' @ to_string b @ ''`'' else [])
                    @ '' ORDER BY $1 ASC'',
          rvalues = [JStr name]\<rparr>"
proof
  show "sort_by (JStr name) JUndefined (new_QueryBuilder b) =
     Inr (add (JStr ''sort'') (JObj [(''fields'', JArr [JStr name]), (''order'', JStr ''ASC'')])
            (new_QueryBuilder b))"
    by (simp add: sort_by_def toUpperCase_def upper_char_def)
next
  show "result (add (JStr ''sort'') (JObj [(''fields'', JArr [JStr name]), (''order'', JStr ''ASC'')])
               (new_QueryBuilder b)) =
     Inr \<lparr>rquery = (if is_nullish b then ''SELECT *'' else ''SELECT `'' @ to_string b @ ''`.*'')
                    @ (if truthy b then '' FROM `'' @ to_string b @ ''`'' else [])
                    @ '' ORDER BY $1 ASC'',
          rvalues = [JStr name]\<rparr>"
    by (cases b) (simp_all add: result_def build_defs digits_of_Suc0)
qed

subsection \<open>The FROM section\<close>

text \<open>
  Claim C9. A builder constructed with no bucket on which \<^verbatim>\<open>from('n')\<close> is called
  qualifies the projection with \<open>n\<close> but renders no \<^verbatim>\<open>FROM\<close> section: the guard of the
  section tests \<^verbatim>\<open>this.bucket\<close>, not the name that \<^verbatim>\<open>from\<close> recorded.
\<close>

theorem from_without_constructor_bucket:
  "result (from_name (JStr ''n'') (new_QueryBuilder JUndefined)) =
     Inr \<lparr>rquery = ''SELECT `n`.*'', rvalues = []\<rparr>"
  by code_simp

subsection \<open>Unrecognised operators\<close>

text \<open>
  An entry whose type is none of those the first loop of \<^verbatim>\<open>build\<close> lists changes
  nothing: \<^verbatim>\<open>build\<close> returns what it returns without the entry.
\<close>

lemma unlisted_type_ignored:
  assumes "t \<notin> set where_types"
    and "t \<notin> set (map JStr [''from'', ''select'', ''rawWhere'', ''limit'', ''skip'', ''sort''])"
  shows "result (qb\<lparr>query := pre @ [\<lparr>ctype = t, params = p\<rparr>] @ post\<rparr>) =
         result (qb\<lparr>query := pre @ post\<rparr>)"
proof -
  have "collect \<lparr>ctype = t, params = p\<rparr> cl = Inr cl" for cl
    using assms by (simp add: collect_def where_types_def)
  then have "collect_all (pre @ [\<lparr>ctype = t, params = p\<rparr>] @ post) cl = collect_all (pre @ post) cl" for cl
    by (simp add: collect_all_append split: sum.splits)
  then show ?thesis
    by (simp add: result_eq initial_clauses_def split: sum.splits)
qed

text \<open>
  Claim C4. \<^verbatim>\<open>where('a', 'like', 1)\<close> records an entry of type \<^verbatim>\<open>like\<close>; no case of the
  first loop of \<^verbatim>\<open>build\<close> takes it, so it never reaches the \<^verbatim>\<open>switch\<close> of \<^verbatim>\<open>_where\<close>
  that throws: \<^verbatim>\<open>build\<close> returns a query without the clause.
\<close>

theorem where_unknown_operator_dropped:
  "result (where_clause (JStr ''a'') (JStr ''like'') (JNum (Fin 1 0)) (new_QueryBuilder JUndefined)) =
     Inr \<lparr>rquery = ''SELECT *'', rvalues = []\<rparr>"
  by code_simp

end
